theory Spec2Isabelle
  imports Main "HOL-Library.Word"
begin

section \<open>pcm2g729: raw PCM to a G.729 RIFF container\<close>

text \<open>
  A shallow embedding of \<^verbatim>\<open>pcm2g729.c\<close>. The program opens a PCM file and an output
  file, creates a bcg729 encoder channel, counts the 80-sample frames of the input,
  rewinds, encodes every frame into memory, then writes a RIFF header followed by the
  encoded frames.

  Modelling decisions:
  \<^item> \<^verbatim>\<open>uint8_t\<close>, \<^verbatim>\<open>uint16_t\<close>, \<^verbatim>\<open>int16_t\<close>, \<^verbatim>\<open>uint32_t\<close> are words; arithmetic on them wraps.
  \<^item> The host is little-endian: \<^verbatim>\<open>fwrite(&x, 4, 1, f)\<close> emits the least significant byte
    first, and an \<^verbatim>\<open>int16_t\<close> read from two file bytes has the first byte as its low byte.
  \<^item> The file system is a map from paths to byte strings. Opening for writing creates
    or truncates the file at once; the bytes written are in the file after \<^verbatim>\<open>fclose\<close>.
  \<^item> The bcg729 library is not part of the program. It is a parameter: the result of
    \<^verbatim>\<open>initBcg729EncoderChannel\<close> and the effect of one \<^verbatim>\<open>bcg729Encoder\<close> call on the context,
    on the 10-byte output buffer and on \<^verbatim>\<open>bitStreamLength[0]\<close>.
  \<^item> Uninitialised memory (the stack array \<^verbatim>\<open>pcmFrame\<close>) is a parameter of the
    environment.
  \<^item> The source checks neither \<^verbatim>\<open>malloc\<close> nor \<^verbatim>\<open>fread\<close>/\<^verbatim>\<open>fwrite\<close> for errors; the model
    follows the run in which they succeed, and \<^verbatim>\<open>size_t\<close> is 64 bits wide.
  \<^item> The calls the program makes are recorded, in program order, in a trace.
\<close>

unbundle bit_operations_syntax

subsection \<open>Machine types and constants\<close>

type_synonym u8 = "8 word"
type_synonym u16 = "16 word"
type_synonym i16 = "16 word"
type_synonym u32 = "32 word"

definition FRAME_SIZE :: nat where
  "FRAME_SIZE = 80"

definition ENCODED_FRAME_SIZE :: nat where
  "ENCODED_FRAME_SIZE = 10"


text \<open>\<^verbatim>\<open>sizeof(int16_t)\<close>.\<close>

definition SAMPLE_BYTES :: nat where
  "SAMPLE_BYTES = 2"

subsection \<open>Object representations on a little-endian host\<close>

definition bytes_u16 :: "u16 \<Rightarrow> u8 list" where
  "bytes_u16 x = [ucast x, ucast (drop_bit 8 x)]"

definition bytes_u32 :: "u32 \<Rightarrow> u8 list" where
  "bytes_u32 x = [ucast x, ucast (drop_bit 8 x), ucast (drop_bit 16 x), ucast (drop_bit 24 x)]"

definition ascii :: "string \<Rightarrow> u8 list" where
  "ascii s = map of_char s"

text \<open>The \<^verbatim>\<open>int16_t\<close> array held in a byte buffer.\<close>

fun samples_of :: "u8 list \<Rightarrow> i16 list" where
  "samples_of (lo # hi # bs) = (ucast lo + push_bit 8 (ucast hi)) # samples_of bs"
| "samples_of bs = []"

text \<open>Reading a 32-bit field back out of a file, at a byte offset.\<close>

definition u32_at :: "u8 list \<Rightarrow> nat \<Rightarrow> u32" where
  "u32_at bs off =
     ucast (bs ! off) OR push_bit 8 (ucast (bs ! (off + 1)))
       OR push_bit 16 (ucast (bs ! (off + 2))) OR push_bit 24 (ucast (bs ! (off + 3)))"

subsection \<open>The container header\<close>

text \<open>
  \<^verbatim>\<open>write_wav_header(file, data_size, sample_count)\<close>: sixteen \<^verbatim>\<open>fwrite\<close> calls, each
  appending to the stream.
\<close>

definition write_wav_header :: "u8 list \<Rightarrow> u32 \<Rightarrow> u32 \<Rightarrow> u8 list" where
  "write_wav_header file data_size sample_count =
     (let chunk_size = 4 + 24 + 12 + 8 + data_size;
          fmt_size = (16 :: u32);
          audio_format = (0x0133 :: u16);
          num_channels = (1 :: u16);
          sample_rate = (8000 :: u32);
          byte_rate = (8000 :: u32);
          block_align = (10 :: u16);
          bits_per_sample = (0 :: u16);
          fact_size = (4 :: u32)
      in file @ ascii ''RIFF'' @ bytes_u32 chunk_size @ ascii ''WAVE''
           @ ascii ''fmt '' @ bytes_u32 fmt_size
           @ bytes_u16 audio_format @ bytes_u16 num_channels
           @ bytes_u32 sample_rate @ bytes_u32 byte_rate
           @ bytes_u16 block_align @ bytes_u16 bits_per_sample
           @ ascii ''fact'' @ bytes_u32 fact_size @ bytes_u32 sample_count
           @ ascii ''data'' @ bytes_u32 data_size)"

subsection \<open>The environment\<close>

record world =
  files :: "string \<Rightarrow> u8 list option"
  writable :: "string \<Rightarrow> bool"
  stack_garbage :: "nat \<Rightarrow> u8"

text \<open>\<^verbatim>\<open>fopen(path, "rb")\<close>: the contents to read, or failure.\<close>

definition fopen_rb :: "world \<Rightarrow> string \<Rightarrow> unit option" where
  "fopen_rb w path = (case files w path of None \<Rightarrow> None | Some bs \<Rightarrow> Some ())"

text \<open>\<^verbatim>\<open>fopen(path, "wb")\<close>: the file is created, or truncated to length zero.\<close>

definition fopen_wb :: "world \<Rightarrow> string \<Rightarrow> world option" where
  "fopen_wb w path =
     (if writable w path then Some (w\<lparr>files := (files w)(path \<mapsto> [])\<rparr>) else None)"

text \<open>The bytes an open input stream reads: the file as it is now.\<close>

definition contents :: "world \<Rightarrow> string \<Rightarrow> u8 list" where
  "contents w path = (case files w path of None \<Rightarrow> [] | Some bs \<Rightarrow> bs)"

text \<open>The external encoder library.\<close>

record 'c codec =
  initBcg729EncoderChannel :: "u8 \<Rightarrow> 'c option"
  bcg729Encoder :: "'c \<Rightarrow> i16 list \<Rightarrow> 'c \<times> u8 list \<times> u8"

text \<open>
  The library's contract: ten bytes of buffer, a length of at most ten. The program
  writes \<^verbatim>\<open>frames[i].size\<close> bytes of the ten-byte array \<^verbatim>\<open>frames[i].data\<close>; with a larger
  length that read leaves the array, which C does not define, so statements about the
  bytes written assume the contract.
\<close>

definition codec_ok :: "'c codec \<Rightarrow> bool" where
  "codec_ok cd \<longleftrightarrow>
     (\<forall>c f. case bcg729Encoder cd c f of (c', d, l) \<Rightarrow>
        length d = ENCODED_FRAME_SIZE \<and> unat l \<le> ENCODED_FRAME_SIZE)"

record EncodedFrame =
  frame_data :: "u8 list"
  frame_size :: u8

datatype event =
    OpenInput
  | OpenOutput
  | InitEncoder
  | Fread nat
  | Rewind
  | Encode "i16 list"
  | WriteHeader u32 u32
  | WriteFrame nat
  | CloseEncoder
  | CloseInput
  | CloseOutput

datatype report =
    Usage
  | InputOpenError
  | OutputOpenError
  | EncoderInitFailed
  | Encoded u32 u32

subsection \<open>Reading frames\<close>

text \<open>
  \<^verbatim>\<open>fread(pcmFrame, sizeof(int16_t), FRAME_SIZE, pcmFile)\<close> on a stream over \<open>content\<close> at
  position \<open>pos\<close>: the bytes available, at most 160, are stored at the start of the
  buffer and consumed; the result is the number of complete samples among them.
\<close>

definition fread_frame :: "u8 list \<Rightarrow> u8 list \<Rightarrow> nat \<Rightarrow> u8 list \<times> nat \<times> nat" where
  "fread_frame buf content pos =
     (let got = take (SAMPLE_BYTES * FRAME_SIZE) (drop pos content)
      in (got @ drop (length got) buf, length got div SAMPLE_BYTES, pos + length got))"

text \<open>\<^verbatim>\<open>memset(pcmFrame + bytesRead, 0, (FRAME_SIZE - bytesRead) * sizeof(int16_t))\<close>.\<close>

definition memset_tail :: "u8 list \<Rightarrow> nat \<Rightarrow> u8 list" where
  "memset_tail buf bytesRead =
     take (SAMPLE_BYTES * bytesRead) buf @ replicate ((FRAME_SIZE - bytesRead) * SAMPLE_BYTES) 0"

subsection \<open>First pass: counting frames\<close>

record count_state =
  c_pcmFrame :: "u8 list"
  c_pos :: nat
  c_frame_count :: u32
  c_trace :: "event list"

function count_frames :: "u8 list \<Rightarrow> count_state \<Rightarrow> count_state" where
  "count_frames content st =
     (case fread_frame (c_pcmFrame st) content (c_pos st) of
        (buf, bytesRead, pos') \<Rightarrow>
          if bytesRead > 0
          then count_frames content
                 (st\<lparr>c_pcmFrame := buf, c_pos := pos',
                     c_frame_count := c_frame_count st + 1,
                     c_trace := c_trace st @ [Fread bytesRead]\<rparr>)
          else st\<lparr>c_pcmFrame := buf, c_pos := pos',
                  c_trace := c_trace st @ [Fread bytesRead]\<rparr>)"
  by pat_completeness auto
termination
  apply (relation "measure (\<lambda>(content, st). length content - c_pos st)")
   apply simp
  apply (auto simp: fread_frame_def Let_def SAMPLE_BYTES_def FRAME_SIZE_def)
  done

declare count_frames.simps [simp del]

subsection \<open>Second pass: encoding frames\<close>

record 'c encode_state =
  e_pcmFrame :: "u8 list"
  e_pos :: nat
  e_encoder :: 'c
  e_frames :: "EncodedFrame list"
  e_total_data_size :: u32
  e_trace :: "event list"

text \<open>
  The body of the encoding loop. \<^verbatim>\<open>frames[i]\<close> is filled for \<open>i = 0, 1, 2, \<dots>\<close> in
  turn, so the entries filled so far are a list and filling the next one appends.
\<close>

definition encode_frame :: "'c codec \<Rightarrow> u8 list \<Rightarrow> 'c encode_state \<Rightarrow> 'c encode_state" where
  "encode_frame cd content st =
     (case fread_frame (e_pcmFrame st) content (e_pos st) of
        (buf, bytesRead, pos') \<Rightarrow>
          let buf' = (if bytesRead < FRAME_SIZE then memset_tail buf bytesRead else buf)
          in case bcg729Encoder cd (e_encoder st) (samples_of buf') of
               (enc', bitStream, bitStreamLength) \<Rightarrow>
                 st\<lparr>e_pcmFrame := buf', e_pos := pos', e_encoder := enc',
                    e_frames := e_frames st
                      @ [\<lparr>frame_data = bitStream, frame_size = bitStreamLength\<rparr>],
                    e_total_data_size := e_total_data_size st + ucast bitStreamLength,
                    e_trace := e_trace st @ [Fread bytesRead, Encode (samples_of buf')]\<rparr>)"

text \<open>\<^verbatim>\<open>for (uint32_t i = 0; i < frame_count; i++)\<close>, from index \<open>i\<close> on.\<close>

function encode_frames ::
  "'c codec \<Rightarrow> u8 list \<Rightarrow> u32 \<Rightarrow> u32 \<Rightarrow> 'c encode_state \<Rightarrow> 'c encode_state" where
  "encode_frames cd content frame_count i st =
     (if i < frame_count
      then encode_frames cd content frame_count (i + 1) (encode_frame cd content st)
      else st)"
  by pat_completeness auto
termination
  apply (relation "measure (\<lambda>(cd, content, frame_count, i, st). unat frame_count - unat i)")
   apply simp
  subgoal premises prems for cd content frame_count i st
  proof -
    have lt: "unat i < unat frame_count"
      using prems by (simp add: word_less_nat_alt)
    have "unat frame_count < 2 ^ 32"
      using unsigned_less [of frame_count, where 'a = nat] by simp
    with lt have "unat i + 1 < 2 ^ 32"
      by simp
    then have "unat (i + 1) = unat i + 1"
      by (simp add: unat_word_ariths)
    with lt show ?thesis
      by simp
  qed
  done

declare encode_frames.simps [simp del]

subsection \<open>Writing the encoded frames\<close>

text \<open>
  \<^verbatim>\<open>fwrite(frames[i].data, 1, frames[i].size, outFile)\<close> for \<open>i\<close> from the given index up
  to \<open>frame_count\<close>.
\<close>

record write_state =
  w_out :: "u8 list"
  w_trace :: "event list"

definition write_frame :: "EncodedFrame \<Rightarrow> write_state \<Rightarrow> write_state" where
  "write_frame fr st =
     (let bs = take (unat (frame_size fr)) (frame_data fr)
      in st\<lparr>w_out := w_out st @ bs, w_trace := w_trace st @ [WriteFrame (length bs)]\<rparr>)"

function write_frames :: "EncodedFrame list \<Rightarrow> u32 \<Rightarrow> u32 \<Rightarrow> write_state \<Rightarrow> write_state" where
  "write_frames frames frame_count i st =
     (if i < frame_count
      then write_frames frames frame_count (i + 1) (write_frame (frames ! unat i) st)
      else st)"
  by pat_completeness auto
termination
  apply (relation "measure (\<lambda>(frames, frame_count, i, st). unat frame_count - unat i)")
   apply simp
  subgoal premises prems for frames frame_count i st
  proof -
    have lt: "unat i < unat frame_count"
      using prems by (simp add: word_less_nat_alt)
    have "unat frame_count < 2 ^ 32"
      using unsigned_less [of frame_count, where 'a = nat] by simp
    with lt have "unat i + 1 < 2 ^ 32"
      by simp
    then have "unat (i + 1) = unat i + 1"
      by (simp add: unat_word_ariths)
    with lt show ?thesis
      by simp
  qed
  done

declare write_frames.simps [simp del]

subsection \<open>The program\<close>

record outcome =
  exit_code :: int
  final :: world
  reports :: "report list"
  trace :: "event list"

text \<open>
  \<^verbatim>\<open>main(argc, argv)\<close> with \<open>argc = length argv\<close>. The four early returns of the source
  are the four branches with exit code 1.
\<close>

definition main :: "'c codec \<Rightarrow> world \<Rightarrow> string list \<Rightarrow> outcome" where
  "main cd w argv =
     (if length argv \<noteq> 3
      then \<lparr>exit_code = 1, final = w, reports = [Usage], trace = []\<rparr>
      else case fopen_rb w (argv ! 1) of
        None \<Rightarrow>
          \<lparr>exit_code = 1, final = w, reports = [InputOpenError], trace = [OpenInput]\<rparr>
      | Some pcmFile \<Rightarrow>
          (case fopen_wb w (argv ! 2) of
             None \<Rightarrow>
               \<lparr>exit_code = 1, final = w, reports = [OutputOpenError],
                trace = [OpenInput, OpenOutput, CloseInput]\<rparr>
           | Some w1 \<Rightarrow>
               (case initBcg729EncoderChannel cd 0 of
                  None \<Rightarrow>
                    \<lparr>exit_code = 1, final = w1, reports = [EncoderInitFailed],
                     trace = [OpenInput, OpenOutput, InitEncoder, CloseInput, CloseOutput]\<rparr>
                | Some encoder \<Rightarrow>
                    let content = contents w1 (argv ! 1);
                        pcmFrame = map (stack_garbage w1) [0..<SAMPLE_BYTES * FRAME_SIZE];
                        cst = count_frames content
                                \<lparr>c_pcmFrame = pcmFrame, c_pos = 0, c_frame_count = 0,
                                 c_trace = [OpenInput, OpenOutput, InitEncoder]\<rparr>;
                        frame_count = c_frame_count cst;
                        sample_count = frame_count * of_nat FRAME_SIZE;
                        est = encode_frames cd content frame_count 0
                                \<lparr>e_pcmFrame = c_pcmFrame cst, e_pos = 0,
                                 e_encoder = encoder, e_frames = [],
                                 e_total_data_size = 0,
                                 e_trace = c_trace cst @ [Rewind]\<rparr>;
                        total_data_size = e_total_data_size est;
                        wst = write_frames (e_frames est) frame_count 0
                                \<lparr>w_out = write_wav_header [] total_data_size sample_count,
                                 w_trace = e_trace est
                                   @ [WriteHeader total_data_size sample_count]\<rparr>
                    in \<lparr>exit_code = 0,
                        final = w1\<lparr>files := (files w1)(argv ! 2 \<mapsto> w_out wst)\<rparr>,
                        reports = [Encoded frame_count total_data_size],
                        trace = w_trace wst @ [CloseEncoder, CloseInput, CloseOutput]\<rparr>)))"

subsection \<open>Reference functions\<close>

text \<open>
  What the specification says the segmenter and the counters compute, as functions of
  the input; the theorems below compare the program with them.
\<close>

definition spec_frame_count :: "nat \<Rightarrow> nat" where
  "spec_frame_count n = (n + (FRAME_SIZE - 1)) div FRAME_SIZE"

definition spec_pad :: "nat \<Rightarrow> nat" where
  "spec_pad n = (FRAME_SIZE - n mod FRAME_SIZE) mod FRAME_SIZE"

text \<open>Frame \<open>j\<close> of a sample stream: its samples, then the samples zero-padded to 80.\<close>

definition spec_chunk :: "i16 list \<Rightarrow> nat \<Rightarrow> i16 list" where
  "spec_chunk samples j = take FRAME_SIZE (drop (FRAME_SIZE * j) samples)"

definition spec_frame :: "i16 list \<Rightarrow> nat \<Rightarrow> i16 list" where
  "spec_frame samples j =
     spec_chunk samples j @ replicate (FRAME_SIZE - length (spec_chunk samples j)) 0"

text \<open>The encoder run over a list of frames, the context threaded through.\<close>

fun run_codec :: "'c codec \<Rightarrow> 'c \<Rightarrow> i16 list list \<Rightarrow> EncodedFrame list" where
  "run_codec cd c [] = []"
| "run_codec cd c (f # fs) =
     (case bcg729Encoder cd c f of
        (c', d, l) \<Rightarrow> \<lparr>frame_data = d, frame_size = l\<rparr> # run_codec cd c' fs)"

text \<open>The bytes of the encoded frames that reach the file, and their declared lengths.\<close>

definition frame_bytes :: "EncodedFrame \<Rightarrow> u8 list" where
  "frame_bytes fr = take (unat (frame_size fr)) (frame_data fr)"

definition payload_of :: "EncodedFrame list \<Rightarrow> u8 list" where
  "payload_of frs = concat (map frame_bytes frs)"

definition declared_sizes :: "EncodedFrame list \<Rightarrow> nat" where
  "declared_sizes frs = sum_list (map (\<lambda>fr. unat (frame_size fr)) frs)"

text \<open>
  The results of the \<^verbatim>\<open>fread\<close> calls of the counting pass over \<open>r\<close> remaining bytes:
  80 for every full frame, the sample count of a short last frame, then 0.
\<close>

definition count_reads :: "nat \<Rightarrow> nat list" where
  "count_reads r =
     replicate (r div (SAMPLE_BYTES * FRAME_SIZE)) FRAME_SIZE
       @ (if SAMPLE_BYTES \<le> r mod (SAMPLE_BYTES * FRAME_SIZE)
          then [r mod (SAMPLE_BYTES * FRAME_SIZE) div SAMPLE_BYTES, 0] else [0])"

text \<open>The events of the encoding pass for frames \<open>js\<close> of a sample stream.\<close>

definition encode_events :: "i16 list \<Rightarrow> nat list \<Rightarrow> event list" where
  "encode_events samples js =
     concat (map (\<lambda>j. [Fread (length (spec_chunk samples j)), Encode (spec_frame samples j)]) js)"

text \<open>
  The run of the program on input bytes \<open>pcm\<close> in closed form: the frame counter after
  the first pass, the frames handed to the encoder, the encoded frames, the output
  file and the trace.
\<close>

definition counted :: "u8 list \<Rightarrow> u32" where
  "counted pcm = of_nat (spec_frame_count (length pcm div SAMPLE_BYTES))"

definition fed_frames :: "u8 list \<Rightarrow> i16 list list" where
  "fed_frames pcm = map (spec_frame (samples_of pcm)) [0..<unat (counted pcm)]"

definition encoded :: "'c codec \<Rightarrow> 'c \<Rightarrow> u8 list \<Rightarrow> EncodedFrame list" where
  "encoded cd c0 pcm = run_codec cd c0 (fed_frames pcm)"

definition total_size :: "'c codec \<Rightarrow> 'c \<Rightarrow> u8 list \<Rightarrow> u32" where
  "total_size cd c0 pcm = of_nat (declared_sizes (encoded cd c0 pcm))"

definition container :: "'c codec \<Rightarrow> 'c \<Rightarrow> u8 list \<Rightarrow> u8 list" where
  "container cd c0 pcm =
     write_wav_header [] (total_size cd c0 pcm) (counted pcm * of_nat FRAME_SIZE)
       @ payload_of (encoded cd c0 pcm)"

definition run_trace :: "'c codec \<Rightarrow> 'c \<Rightarrow> u8 list \<Rightarrow> event list" where
  "run_trace cd c0 pcm =
     [OpenInput, OpenOutput, InitEncoder] @ map Fread (count_reads (length pcm)) @ [Rewind]
       @ encode_events (samples_of pcm) [0..<unat (counted pcm)]
       @ [WriteHeader (total_size cd c0 pcm) (counted pcm * of_nat FRAME_SIZE)]
       @ map (\<lambda>fr. WriteFrame (length (frame_bytes fr))) (encoded cd c0 pcm)
       @ [CloseEncoder, CloseInput, CloseOutput]"

text \<open>The frames handed to the encoder, read off a trace.\<close>

fun encoded_frames :: "event list \<Rightarrow> i16 list list" where
  "encoded_frames [] = []"
| "encoded_frames (Encode f # es) = f # encoded_frames es"
| "encoded_frames (e # es) = encoded_frames es"

text \<open>
  What the encoder returns for the frames of a trace, called on them in trace order
  from the context \<open>c0\<close> on.
\<close>

definition returned :: "'c codec \<Rightarrow> 'c \<Rightarrow> event list \<Rightarrow> EncodedFrame list" where
  "returned cd c0 tr = run_codec cd c0 (encoded_frames tr)"

subsection \<open>Concrete environments\<close>

text \<open>
  An encoder that always succeeds and returns ten zero bytes per frame, as bcg729 does
  for silence without voice-activity detection; a library whose channel creation
  fails; a file system holding one input file; and a command line.
\<close>

definition fixed_codec :: "unit codec" where
  "fixed_codec =
     \<lparr>initBcg729EncoderChannel = (\<lambda>enableVAD. Some ()),
      bcg729Encoder = (\<lambda>c f. ((), replicate 10 0, 10))\<rparr>"

definition refusing_codec :: "unit codec" where
  "refusing_codec =
     \<lparr>initBcg729EncoderChannel = (\<lambda>enableVAD. None),
      bcg729Encoder = (\<lambda>c f. ((), replicate 10 0, 10))\<rparr>"

definition world_of :: "u8 list \<Rightarrow> world" where
  "world_of pcm =
     \<lparr>files = [''in.pcm'' \<mapsto> pcm], writable = (\<lambda>path. True), stack_garbage = (\<lambda>i. 0)\<rparr>"

definition run_argv :: "string list" where
  "run_argv = [''pcm2g729'', ''in.pcm'', ''out.g729'']"

text \<open>
  A second environment: other paths, a destination that already holds a file, other
  bytes in uninitialised memory.
\<close>

definition second_world :: "u8 list \<Rightarrow> world" where
  "second_world pcm =
     \<lparr>files = [''a.raw'' \<mapsto> pcm, ''b.wav'' \<mapsto> [9, 9, 9]], writable = (\<lambda>path. True),
      stack_garbage = (\<lambda>i. 255)\<rparr>"

definition second_argv :: "string list" where
  "second_argv = [''./pcm2g729'', ''a.raw'', ''b.wav'']"

text \<open>
  An encoder whose output shows the order of the calls: the context counts the calls
  made so far, and each encoded frame starts with that count and the low byte of the
  frame's first sample.
\<close>

definition counting_codec :: "nat codec" where
  "counting_codec =
     \<lparr>initBcg729EncoderChannel = (\<lambda>enableVAD. Some 0),
      bcg729Encoder =
        (\<lambda>c f. (Suc c,
                [of_nat c, (case f of [] \<Rightarrow> 0 | s # ss \<Rightarrow> ucast s), 0, 0, 0, 0, 0, 0, 0, 0],
                10))\<rparr>"

text \<open>The codec calls among the events.\<close>

fun is_codec_call :: "event \<Rightarrow> bool" where
  "is_codec_call InitEncoder = True"
| "is_codec_call (Encode f) = True"
| "is_codec_call CloseEncoder = True"
| "is_codec_call e = False"

section \<open>Properties of the loops\<close>

subsection \<open>Samples and frames\<close>

lemma length_samples_of: "length (samples_of bs) = length bs div 2"
  by (induction bs rule: samples_of.induct) auto

lemma samples_of_append: "even (length xs) \<Longrightarrow> samples_of (xs @ ys) = samples_of xs @ samples_of ys"
  by (induction xs rule: samples_of.induct) auto

lemma samples_of_zeros: "samples_of (replicate (m * 2) 0) = replicate m 0"
  by (induction m) auto

lemma samples_of_take: "samples_of (take (2 * m) bs) = take m (samples_of bs)"
proof (induction m arbitrary: bs)
  case 0
  show ?case by simp
next
  case (Suc m)
  show ?case
    by (cases bs rule: samples_of.cases) (simp_all add: Suc.IH)
qed

lemma samples_of_drop: "samples_of (drop (2 * m) bs) = drop m (samples_of bs)"
proof (induction m arbitrary: bs)
  case 0
  show ?case by simp
next
  case (Suc m)
  show ?case
    by (cases bs rule: samples_of.cases) (simp_all add: Suc.IH)
qed

lemma unat_succ: "(i::u32) < fc \<Longrightarrow> unat (i + 1) = Suc (unat i)"
proof -
  assume "i < fc"
  then have lt: "unat i < unat fc"
    by (simp add: word_less_nat_alt)
  have "unat fc < 2 ^ 32"
    using unsigned_less [of fc, where 'a = nat] by simp
  with lt have "unat i + 1 < 2 ^ 32"
    by simp
  then show ?thesis
    by (simp add: unat_word_ariths)
qed

text \<open>One read of the second pass and the padding that follows it.\<close>

lemma read_frame:
  assumes len: "length buf = 160"
    and rd: "fread_frame buf content pos = (b1, br, pos')"
  shows "samples_of (if br < FRAME_SIZE then memset_tail b1 br else b1)
           = (let c = samples_of (take 160 (drop pos content)) in c @ replicate (80 - length c) 0)"
    and "length (if br < FRAME_SIZE then memset_tail b1 br else b1) = 160"
    and "br = length (samples_of (take 160 (drop pos content)))"
    and "pos' = pos + min 160 (length content - pos)"
proof -
  define got where "got = take 160 (drop pos content)"
  have g: "length got \<le> 160" by (simp add: got_def)
  have b1: "b1 = got @ drop (length got) buf" and br: "br = length got div 2"
    and p: "pos' = pos + length got"
    using rd by (auto simp: fread_frame_def Let_def SAMPLE_BYTES_def FRAME_SIZE_def got_def)
  show "br = length (samples_of (take 160 (drop pos content)))"
    by (simp add: br length_samples_of got_def)
  show "pos' = pos + min 160 (length content - pos)"
    by (simp add: p got_def min.commute)
  show "length (if br < FRAME_SIZE then memset_tail b1 br else b1) = 160"
    using g len by (auto simp: memset_tail_def b1 br SAMPLE_BYTES_def FRAME_SIZE_def)
  show "samples_of (if br < FRAME_SIZE then memset_tail b1 br else b1)
           = (let c = samples_of (take 160 (drop pos content)) in c @ replicate (80 - length c) 0)"
  proof (cases "br < 80")
    case True
    have "take (2 * br) b1 = take (2 * br) got"
      using br by (simp add: b1)
    moreover have "2 * br \<le> length got"
      using br by simp
    then have "even (length (take (2 * br) got))"
      by (simp add: min_absorb2)
    ultimately have "samples_of (memset_tail b1 br) = samples_of (take (2 * br) got) @ replicate (80 - br) 0"
      using True by (simp add: memset_tail_def SAMPLE_BYTES_def FRAME_SIZE_def samples_of_append samples_of_zeros)
    also have "samples_of (take (2 * br) got) = samples_of got"
      by (simp add: samples_of_take br length_samples_of)
    finally show ?thesis
      using True by (simp add: FRAME_SIZE_def Let_def got_def [symmetric] br length_samples_of)
  next
    case False
    with g br have "length got = 160" by simp
    then have "b1 = got" using len by (simp add: b1)
    then show ?thesis
      using False \<open>length got = 160\<close> by (simp add: FRAME_SIZE_def Let_def got_def [symmetric] length_samples_of)
  qed
qed


lemma chunk_of_read:
  "samples_of (take 160 (drop (min (160 * j) (length content)) content))
     = spec_chunk (samples_of content) j"
proof -
  have "drop (min (160 * j) (length content)) content = drop (2 * (80 * j)) content"
    by (cases "160 * j \<le> length content") (simp_all add: min_def)
  then have "samples_of (take 160 (drop (min (160 * j) (length content)) content))
               = samples_of (take (2 * 80) (drop (2 * (80 * j)) content))"
    by simp
  then show ?thesis
    unfolding samples_of_take samples_of_drop by (simp add: spec_chunk_def FRAME_SIZE_def)
qed

lemma encode_frame_step:
  assumes len: "length (e_pcmFrame st) = 160"
    and pos: "e_pos st = min (160 * j) (length content)"
    and enc: "bcg729Encoder cd (e_encoder st) (spec_frame (samples_of content) j) = (c', d, l)"
  shows "length (e_pcmFrame (encode_frame cd content st)) = 160"
    and "e_pos (encode_frame cd content st) = min (160 * Suc j) (length content)"
    and "e_encoder (encode_frame cd content st) = c'"
    and "e_frames (encode_frame cd content st)
           = e_frames st @ [\<lparr>frame_data = d, frame_size = l\<rparr>]"
    and "e_total_data_size (encode_frame cd content st) = e_total_data_size st + ucast l"
    and "e_trace (encode_frame cd content st)
           = e_trace st @ [Fread (length (spec_chunk (samples_of content) j)),
                           Encode (spec_frame (samples_of content) j)]"
proof -
  obtain b1 br pos' where rd: "fread_frame (e_pcmFrame st) content (e_pos st) = (b1, br, pos')"
    by (cases "fread_frame (e_pcmFrame st) content (e_pos st)") auto
  note r = read_frame [OF len rd]
  define buf' where "buf' = (if br < FRAME_SIZE then memset_tail b1 br else b1)"
  have fr: "samples_of buf' = spec_frame (samples_of content) j"
    using r(1) by (simp add: buf'_def pos chunk_of_read spec_frame_def Let_def FRAME_SIZE_def)
  have br: "br = length (spec_chunk (samples_of content) j)"
    using r(3) by (simp add: pos chunk_of_read)
  have p: "pos' = min (160 * Suc j) (length content)"
  proof -
    have "min (160 * j) (length content) + min 160 (length content - min (160 * j) (length content))
            = min (160 * Suc j) (length content)"
      by arith
    with r(4) show ?thesis
      by (simp only: pos)
  qed
  have e: "encode_frame cd content st
             = st\<lparr>e_pcmFrame := buf', e_pos := pos', e_encoder := c',
                  e_frames := e_frames st @ [\<lparr>frame_data = d, frame_size = l\<rparr>],
                  e_total_data_size := e_total_data_size st + ucast l,
                  e_trace := e_trace st @ [Fread br, Encode (samples_of buf')]\<rparr>"
    using enc by (simp add: encode_frame_def rd Let_def buf'_def [symmetric] fr)
  show "length (e_pcmFrame (encode_frame cd content st)) = 160"
    using r(2) by (simp add: e buf'_def)
  show "e_pos (encode_frame cd content st) = min (160 * Suc j) (length content)"
    by (simp add: e p)
  show "e_encoder (encode_frame cd content st) = c'"
    by (simp add: e)
  show "e_frames (encode_frame cd content st)
           = e_frames st @ [\<lparr>frame_data = d, frame_size = l\<rparr>]"
    by (simp add: e)
  show "e_total_data_size (encode_frame cd content st) = e_total_data_size st + ucast l"
    by (simp add: e)
  show "e_trace (encode_frame cd content st)
           = e_trace st @ [Fread (length (spec_chunk (samples_of content) j)),
                           Encode (spec_frame (samples_of content) j)]"
    by (simp add: e fr br)
qed

lemma encode_frames_closed:
  "length (e_pcmFrame st) = 160 \<Longrightarrow>
   e_pos st = min (160 * unat i) (length content) \<Longrightarrow>
   e_frames (encode_frames cd content fc i st)
     = e_frames st
       @ run_codec cd (e_encoder st) (map (spec_frame (samples_of content)) [unat i..<unat fc])
   \<and> e_total_data_size (encode_frames cd content fc i st)
     = e_total_data_size st
       + of_nat (declared_sizes
           (run_codec cd (e_encoder st) (map (spec_frame (samples_of content)) [unat i..<unat fc])))
   \<and> e_trace (encode_frames cd content fc i st)
     = e_trace st @ encode_events (samples_of content) [unat i..<unat fc]"
proof (induction cd content fc i st rule: encode_frames.induct)
  case (1 cd content fc i st)
  show ?case
  proof (cases "i < fc")
    case False
    then have "unat fc \<le> unat i"
      by (simp add: word_less_nat_alt)
    then show ?thesis
      using False by (simp add: encode_frames.simps [of cd content fc i st] declared_sizes_def encode_events_def)
  next
    case True
    then have lt: "unat i < unat fc"
      by (simp add: word_less_nat_alt)
    have suc: "unat (i + 1) = Suc (unat i)"
      using True by (rule unat_succ)
    obtain c' d l where enc:
      "bcg729Encoder cd (e_encoder st) (spec_frame (samples_of content) (unat i)) = (c', d, l)"
      by (cases "bcg729Encoder cd (e_encoder st) (spec_frame (samples_of content) (unat i))") auto
    note s = encode_frame_step [OF "1.prems"(1) "1.prems"(2) enc]
    have ih: "e_frames (encode_frames cd content fc (i + 1) (encode_frame cd content st))
        = e_frames (encode_frame cd content st)
          @ run_codec cd c' (map (spec_frame (samples_of content)) [Suc (unat i)..<unat fc])
      \<and> e_total_data_size (encode_frames cd content fc (i + 1) (encode_frame cd content st))
        = e_total_data_size (encode_frame cd content st)
          + of_nat (declared_sizes
              (run_codec cd c' (map (spec_frame (samples_of content)) [Suc (unat i)..<unat fc])))
      \<and> e_trace (encode_frames cd content fc (i + 1) (encode_frame cd content st))
        = e_trace (encode_frame cd content st)
          @ encode_events (samples_of content) [Suc (unat i)..<unat fc]"
      using "1.IH" [OF True s(1)] s(2) s(3) by (simp add: suc)
    have unf: "encode_frames cd content fc i st
                 = encode_frames cd content fc (i + 1) (encode_frame cd content st)"
      using True by (simp add: encode_frames.simps [of cd content fc i st])
    have upt: "[unat i..<unat fc] = unat i # [Suc (unat i)..<unat fc]"
      using lt by (simp add: upt_conv_Cons)
    show ?thesis
      unfolding unf upt
      using ih s(4) s(5) s(6)
      by (simp add: enc declared_sizes_def encode_events_def unsigned_of_nat [symmetric])
  qed
qed

subsection \<open>The counting pass and the writing loop\<close>

lemma spec_frame_count_step:
  assumes "2 \<le> r"
  shows "spec_frame_count ((r - min 160 r) div 2) + 1 = spec_frame_count (r div 2)"
proof (cases "160 \<le> r")
  case True
  then obtain q where q: "r = q + 160"
    by (metis le_add_diff_inverse2)
  have "(q + 160) div 2 = q div 2 + 80"
    by simp
  then show ?thesis
    using True by (simp add: q spec_frame_count_def FRAME_SIZE_def)
next
  case False
  with assms have "1 \<le> r div 2" "r div 2 \<le> 79"
    by auto
  then have "(r div 2 + 79) div 80 = 1"
    by simp
  with False show ?thesis
    by (simp add: spec_frame_count_def FRAME_SIZE_def)
qed

lemma count_reads_step:
  "2 \<le> r \<Longrightarrow> count_reads r = (min 160 r div 2) # count_reads (r - min 160 r)"
proof (cases "160 \<le> r")
  case True
  then obtain q where q: "r = q + 160"
    by (metis le_add_diff_inverse2)
  have "(q + 160) div 160 = Suc (q div 160)" "(q + 160) mod 160 = q mod 160"
    by simp_all
  then show ?thesis
    by (simp add: q count_reads_def SAMPLE_BYTES_def FRAME_SIZE_def)
next
  case False
  assume "2 \<le> r"
  with False show ?thesis
    by (simp add: count_reads_def SAMPLE_BYTES_def FRAME_SIZE_def)
qed

lemma count_frames_closed:
  "length (c_pcmFrame st) = 160 \<Longrightarrow> c_pos st \<le> length content \<Longrightarrow>
   length (c_pcmFrame (count_frames content st)) = 160
   \<and> c_frame_count (count_frames content st)
       = c_frame_count st + of_nat (spec_frame_count ((length content - c_pos st) div 2))
   \<and> c_trace (count_frames content st)
       = c_trace st @ map Fread (count_reads (length content - c_pos st))"
proof (induction content st rule: count_frames.induct)
  case (1 content st)
  define r where "r = length content - c_pos st"
  define got where "got = take 160 (drop (c_pos st) content)"
  have g: "length got = min 160 r"
    by (simp add: got_def r_def min.commute)
  obtain buf br pos' where rd: "fread_frame (c_pcmFrame st) content (c_pos st) = (buf, br, pos')"
    by (cases "fread_frame (c_pcmFrame st) content (c_pos st)") auto
  then have buf: "buf = got @ drop (length got) (c_pcmFrame st)"
    and br: "br = min 160 r div 2" and pos': "pos' = c_pos st + min 160 r"
    by (auto simp: fread_frame_def Let_def SAMPLE_BYTES_def FRAME_SIZE_def got_def [symmetric] g)
  have lbuf: "length buf = 160"
    using "1.prems"(1) by (simp add: buf g)
  show ?case
  proof (cases "0 < br")
    case True
    then have r2: "2 \<le> r"
      by (simp add: br min_def split: if_splits)
    have le: "pos' \<le> length content"
      using "1.prems"(2) by (simp add: pos' r_def)
    have rem: "length content - pos' = r - min 160 r"
      by (simp add: pos' r_def)
    have unf: "count_frames content st
                 = count_frames content
                     (st\<lparr>c_pcmFrame := buf, c_pos := pos',
                         c_frame_count := c_frame_count st + 1,
                         c_trace := c_trace st @ [Fread br]\<rparr>)"
      using True by (simp add: count_frames.simps [of content st] rd)
    have "of_nat (spec_frame_count (r div 2))
            = (1 :: u32) + of_nat (spec_frame_count ((r - min 160 r) div 2))"
      using spec_frame_count_step [OF r2, symmetric] by simp
    then show ?thesis
      unfolding unf
      using "1.IH" [OF rd [symmetric] refl True] lbuf le
      by (simp add: rem r_def [symmetric] count_reads_step [OF r2] br)
  next
    case False
    then have r1: "r < 2"
      by (simp add: br min_def split: if_splits)
    have unf: "count_frames content st
                 = st\<lparr>c_pcmFrame := buf, c_pos := pos', c_trace := c_trace st @ [Fread br]\<rparr>"
      using False by (simp add: count_frames.simps [of content st] rd)
    from r1 False show ?thesis
      unfolding unf
      by (simp add: lbuf r_def [symmetric] spec_frame_count_def count_reads_def
          SAMPLE_BYTES_def FRAME_SIZE_def)
  qed
qed

lemma write_frame_out: "w_out (write_frame fr st) = w_out st @ frame_bytes fr"
  and write_frame_trace:
    "w_trace (write_frame fr st) = w_trace st @ [WriteFrame (length (frame_bytes fr))]"
  by (simp_all add: write_frame_def frame_bytes_def Let_def)

lemma write_frames_closed:
  "unat fc \<le> length frs \<Longrightarrow>
   w_out (write_frames frs fc i st)
     = w_out st @ payload_of (take (unat fc - unat i) (drop (unat i) frs))
   \<and> w_trace (write_frames frs fc i st)
     = w_trace st
       @ map (\<lambda>fr. WriteFrame (length (frame_bytes fr)))
           (take (unat fc - unat i) (drop (unat i) frs))"
proof (induction frs fc i st rule: write_frames.induct)
  case (1 frs fc i st)
  show ?case
  proof (cases "i < fc")
    case False
    then have "unat fc \<le> unat i"
      by (simp add: word_less_nat_alt)
    then show ?thesis
      using False by (simp add: write_frames.simps [of frs fc i st] payload_of_def)
  next
    case True
    then have lt: "unat i < unat fc"
      by (simp add: word_less_nat_alt)
    have suc: "unat (i + 1) = Suc (unat i)"
      using True by (rule unat_succ)
    have unf: "write_frames frs fc i st
                 = write_frames frs fc (i + 1) (write_frame (frs ! unat i) st)"
      using True by (simp add: write_frames.simps [of frs fc i st])
    have "unat i < length frs"
      using lt "1.prems" by simp
    then have dr: "drop (unat i) frs = frs ! unat i # drop (Suc (unat i)) frs"
      by (simp add: Cons_nth_drop_Suc)
    have tk: "unat fc - unat i = Suc (unat fc - Suc (unat i))"
      using lt by simp
    show ?thesis
      unfolding unf
      using "1.IH" [OF True "1.prems"]
      by (simp add: suc dr tk write_frame_out write_frame_trace payload_of_def)
  qed
qed

subsection \<open>The whole run\<close>

lemma length_run_codec: "length (run_codec cd c fs) = length fs"
  by (induction fs arbitrary: c) (auto split: prod.splits)

lemma main_success:
  assumes argv: "argv = [a0, inp, outp]" and ne: "inp \<noteq> outp"
    and inp: "files w inp = Some pcm" and wr: "writable w outp"
    and init: "initBcg729EncoderChannel cd 0 = Some c0"
  shows "main cd w argv
           = \<lparr>exit_code = 0,
              final = w\<lparr>files := (files w)(outp \<mapsto> container cd c0 pcm)\<rparr>,
              reports = [Encoded (counted pcm) (total_size cd c0 pcm)],
              trace = run_trace cd c0 pcm\<rparr>"
proof -
  define w1 where "w1 = w\<lparr>files := (files w)(outp \<mapsto> [])\<rparr>"
  define st0 where "st0 = \<lparr>c_pcmFrame = map (stack_garbage w1) [0..<SAMPLE_BYTES * FRAME_SIZE],
      c_pos = 0, c_frame_count = 0, c_trace = [OpenInput, OpenOutput, InitEncoder]\<rparr>"
  define cst where "cst = count_frames pcm st0"
  define est0 :: "'a encode_state" where "est0 = \<lparr>e_pcmFrame = c_pcmFrame cst, e_pos = 0,
      e_encoder = c0, e_frames = [], e_total_data_size = 0, e_trace = c_trace cst @ [Rewind]\<rparr>"
  define est where "est = encode_frames cd pcm (c_frame_count cst) 0 est0"
  define wst0 where "wst0 = \<lparr>w_out = write_wav_header [] (e_total_data_size est)
        (c_frame_count cst * of_nat FRAME_SIZE),
      w_trace = e_trace est @ [WriteHeader (e_total_data_size est)
        (c_frame_count cst * of_nat FRAME_SIZE)]\<rparr>"
  define wst where "wst = write_frames (e_frames est) (c_frame_count cst) 0 wst0"
  have content: "contents w1 inp = pcm"
    using ne inp by (simp add: contents_def w1_def)
  have m: "main cd w argv
             = \<lparr>exit_code = 0, final = w1\<lparr>files := (files w1)(outp \<mapsto> w_out wst)\<rparr>,
                reports = [Encoded (c_frame_count cst) (e_total_data_size est)],
                trace = w_trace wst @ [CloseEncoder, CloseInput, CloseOutput]\<rparr>"
    unfolding main_def
    by (simp add: argv inp wr init fopen_rb_def fopen_wb_def Let_def w1_def [symmetric] content
        st0_def [symmetric] cst_def [symmetric] est0_def [symmetric] est_def [symmetric]
        wst0_def [symmetric] wst_def [symmetric])
  have c: "length (c_pcmFrame cst) = 160" "c_frame_count cst = counted pcm"
    "c_trace cst = [OpenInput, OpenOutput, InitEncoder] @ map Fread (count_reads (length pcm))"
    using count_frames_closed [of st0 pcm]
    by (simp_all add: cst_def st0_def SAMPLE_BYTES_def FRAME_SIZE_def counted_def)
  have e: "e_frames est = encoded cd c0 pcm" "e_total_data_size est = total_size cd c0 pcm"
    "e_trace est = c_trace cst @ [Rewind] @ encode_events (samples_of pcm) [0..<unat (counted pcm)]"
    using encode_frames_closed [of est0 0 pcm cd "c_frame_count cst"] c(1)
    by (simp_all add: est_def est0_def c(2) encoded_def fed_frames_def total_size_def)
  have "unat (counted pcm) \<le> length (encoded cd c0 pcm)"
    by (simp add: encoded_def fed_frames_def length_run_codec)
  from write_frames_closed [OF this, of 0 wst0]
  have wo: "w_out wst = container cd c0 pcm"
    and wt: "w_trace wst @ [CloseEncoder, CloseInput, CloseOutput] = run_trace cd c0 pcm"
    by (simp_all add: wst_def wst0_def e c container_def run_trace_def encoded_def fed_frames_def
        length_run_codec)
  show ?thesis
    unfolding m by (simp add: wo wt c e w1_def)
qed

subsection \<open>The header\<close>

lemma u32_roundtrip:
  "ucast (ucast x :: u8) OR push_bit 8 (ucast (ucast (drop_bit 8 x) :: u8))
     OR push_bit 16 (ucast (ucast (drop_bit 16 x) :: u8))
     OR push_bit 24 (ucast (ucast (drop_bit 24 x) :: u8)) = (x :: u32)"
proof (rule bit_word_eqI)
  fix n
  assume "n < LENGTH(32)"
  then have n: "n < 32"
    by simp
  consider "n < 8" | "8 \<le> n" "n < 16" | "16 \<le> n" "n < 24" | "24 \<le> n"
    by linarith
  then show "bit ((ucast (ucast x :: u8) OR push_bit 8 (ucast (ucast (drop_bit 8 x) :: u8))
     OR push_bit 16 (ucast (ucast (drop_bit 16 x) :: u8))
     OR push_bit 24 (ucast (ucast (drop_bit 24 x) :: u8))) :: u32) n = bit x n"
    using n by cases (auto simp: bit_simps)
qed

lemma length_write_wav_header:
  "length (write_wav_header file data_size sample_count) = length file + 56"
  by (simp add: write_wav_header_def Let_def bytes_u32_def bytes_u16_def ascii_def)

lemma header_fields:
  "u32_at (write_wav_header [] d s @ rest) 4 = 48 + d"
  "u32_at (write_wav_header [] d s @ rest) 44 = s"
  "u32_at (write_wav_header [] d s @ rest) 52 = d"
  by (simp_all add: write_wav_header_def Let_def bytes_u32_def bytes_u16_def ascii_def u32_at_def
      u32_roundtrip)

subsection \<open>Traces, payload and counters\<close>

lemma encoded_frames_append:
  "encoded_frames (xs @ ys) = encoded_frames xs @ encoded_frames ys"
  by (induction xs rule: encoded_frames.induct) auto

lemma encoded_frames_reads: "encoded_frames (map Fread ns) = []"
  by (induction ns) auto

lemma encoded_frames_writes: "encoded_frames (map (\<lambda>fr. WriteFrame (g fr)) frs) = []"
  by (induction frs) auto

lemma encoded_frames_encode_events:
  "encoded_frames (encode_events S js) = map (spec_frame S) js"
  by (induction js) (auto simp: encode_events_def)

lemma encoded_frames_run_trace: "encoded_frames (run_trace cd c0 pcm) = fed_frames pcm"
  by (simp add: run_trace_def encoded_frames_append encoded_frames_reads encoded_frames_writes
      encoded_frames_encode_events fed_frames_def)

lemma codec_calls_encode_events:
  "filter is_codec_call (encode_events S js) = map (\<lambda>j. Encode (spec_frame S j)) js"
  by (induction js) (auto simp: encode_events_def)

lemma codec_calls_reads: "filter is_codec_call (map Fread ns) = []"
  by (induction ns) auto

lemma codec_calls_writes: "filter is_codec_call (map (\<lambda>fr. WriteFrame (g fr)) frs) = []"
  by (induction frs) auto

lemma codec_calls_run_trace:
  "filter is_codec_call (run_trace cd c0 pcm)
     = InitEncoder # map (\<lambda>j. Encode (spec_frame (samples_of pcm) j)) [0..<unat (counted pcm)]
         @ [CloseEncoder]"
  by (simp add: run_trace_def codec_calls_encode_events codec_calls_reads codec_calls_writes)

lemma unat_counted: "unat (counted pcm) = spec_frame_count (length pcm div 2) mod 2 ^ 32"
  by (simp add: counted_def SAMPLE_BYTES_def unat_of_nat)

lemma unat_sample_count:
  "unat (counted pcm * of_nat FRAME_SIZE) = (spec_frame_count (length pcm div 2) * 80) mod 2 ^ 32"
proof -
  have "counted pcm * of_nat FRAME_SIZE
          = (of_nat (spec_frame_count (length pcm div 2) * 80) :: u32)"
    by (simp add: counted_def SAMPLE_BYTES_def FRAME_SIZE_def)
  then show ?thesis
    by (simp only: unat_of_nat) simp
qed

lemma unat_total_size:
  "unat (total_size cd c0 pcm) = declared_sizes (encoded cd c0 pcm) mod 2 ^ 32"
  by (simp add: total_size_def unat_of_nat)

lemma unat_chunk_size:
  "unat (48 + total_size cd c0 pcm) = (48 + declared_sizes (encoded cd c0 pcm)) mod 2 ^ 32"
proof -
  have "48 + total_size cd c0 pcm = (of_nat (48 + declared_sizes (encoded cd c0 pcm)) :: u32)"
    by (simp add: total_size_def)
  then show ?thesis
    by (simp only: unat_of_nat) simp
qed

lemma codec_okD:
  assumes "codec_ok cd" and "bcg729Encoder cd c f = (c', d, l)"
  shows "length d = ENCODED_FRAME_SIZE" and "unat l \<le> ENCODED_FRAME_SIZE"
proof -
  note assms(1) [unfolded codec_ok_def, THEN spec, THEN spec, of c f]
  with assms(2) show "length d = ENCODED_FRAME_SIZE" and "unat l \<le> ENCODED_FRAME_SIZE"
    by simp_all
qed

lemma payload_length:
  "codec_ok cd \<Longrightarrow>
   length (payload_of (run_codec cd c fs)) = declared_sizes (run_codec cd c fs)"
proof (induction fs arbitrary: c)
  case Nil
  show ?case by (simp add: payload_of_def declared_sizes_def)
next
  case (Cons f fs)
  obtain c' d l where e: "bcg729Encoder cd c f = (c', d, l)"
    by (cases "bcg729Encoder cd c f") auto
  have "length (take (unat l) d) = unat l"
    using codec_okD [OF Cons.prems e] by simp
  moreover have "length (payload_of (run_codec cd c' fs)) = declared_sizes (run_codec cd c' fs)"
    using Cons.prems by (rule Cons.IH)
  ultimately show ?case
    by (simp add: e payload_of_def declared_sizes_def frame_bytes_def)
qed

lemma sum_count_reads: "sum_list (count_reads r) = r div 2"
proof -
  define q m where "q = r div 160" and "m = r mod 160"
  have r: "r = 2 * (80 * q) + m"
    by (simp add: q_def m_def)
  have d: "r div 2 = 80 * q + m div 2"
    by (subst r) simp
  show ?thesis
  proof (cases "2 \<le> m")
    case True
    then show ?thesis
      by (simp add: count_reads_def SAMPLE_BYTES_def FRAME_SIZE_def sum_list_replicate d
          q_def [symmetric] m_def [symmetric])
  next
    case False
    then have "m div 2 = 0"
      by simp
    with False show ?thesis
      by (simp add: count_reads_def SAMPLE_BYTES_def FRAME_SIZE_def sum_list_replicate d
          q_def [symmetric] m_def [symmetric])
  qed
qed

subsection \<open>The container, the fixed encoder and the frames of a stream\<close>



lemma length_fed_frames: "length (fed_frames pcm) = unat (counted pcm)"
  by (simp add: fed_frames_def)



lemma drop_container: "drop 56 (container cd c0 pcm) = payload_of (encoded cd c0 pcm)"
  by (simp add: container_def length_write_wav_header)

text \<open>The fixed encoder.\<close>

lemma codec_ok_fixed: "codec_ok fixed_codec"
  by (simp add: codec_ok_def fixed_codec_def ENCODED_FRAME_SIZE_def)

lemma declared_sizes_fixed: "declared_sizes (run_codec fixed_codec c fs) = 10 * length fs"
  by (induction fs arbitrary: c) (simp_all add: declared_sizes_def fixed_codec_def)

lemma samples_of_replicate:
  "samples_of (replicate (2 * m) b) = replicate m (ucast b + push_bit 8 (ucast b))"
  by (induction m) simp_all

text \<open>Frames put end to end.\<close>

lemma concat_chunks:
  "concat (map (spec_chunk S) [0..<m]) = take (80 * m) S"
proof (induction m)
  case 0
  show ?case by simp
next
  case (Suc m)
  have "concat (map (spec_chunk S) [0..<Suc m]) = take (80 * m) S @ spec_chunk S m"
    using Suc by simp
  also have "\<dots> = take (80 * m + 80) S"
    unfolding take_add by (simp add: spec_chunk_def FRAME_SIZE_def)
  also have "80 * m + 80 = 80 * Suc m"
    by simp
  finally show ?case .
qed

lemma full_frame: "80 * Suc j \<le> length S \<Longrightarrow> spec_frame S j = spec_chunk S j"
  by (simp add: spec_frame_def spec_chunk_def FRAME_SIZE_def)

lemma concat_full_frames:
  "80 * m \<le> length S \<Longrightarrow> concat (map (spec_frame S) [0..<m]) = take (80 * m) S"
proof -
  assume le: "80 * m \<le> length S"
  have "map (spec_frame S) [0..<m] = map (spec_chunk S) [0..<m]"
  proof (rule map_cong [OF refl])
    fix j
    assume "j \<in> set [0..<m]"
    then have "80 * Suc j \<le> 80 * m"
      by simp
    with le show "spec_frame S j = spec_chunk S j"
      by (intro full_frame) linarith
  qed
  then show ?thesis
    by (simp only: concat_chunks)
qed

lemma length_spec_frame: "length (spec_frame S j) = 80"
  by (simp add: spec_frame_def spec_chunk_def FRAME_SIZE_def)

lemma concat_spec_frames:
  "concat (map (spec_frame S) [0..<spec_frame_count (length S)])
     = S @ replicate (spec_pad (length S)) 0"
proof (cases "length S mod 80 = 0")
  case True
  then have n: "length S = 80 * (length S div 80)"
    by auto
  have "spec_frame_count (length S) = length S div 80"
    by (subst n) (simp add: spec_frame_count_def FRAME_SIZE_def)
  moreover have "spec_pad (length S) = 0"
    using True by (simp add: spec_pad_def FRAME_SIZE_def)
  ultimately show ?thesis
    using n by (simp add: concat_full_frames)
next
  case False
  define q r where "q = length S div 80" and "r = length S mod 80"
  have n: "length S = 80 * q + r" and r: "0 < r" "r < 80"
    using False by (simp_all add: q_def r_def)
  have c: "spec_frame_count (length S) = Suc q"
    using r by (simp add: n spec_frame_count_def FRAME_SIZE_def)
  have p: "spec_pad (length S) = 80 - r"
    using r by (simp add: r_def [symmetric] spec_pad_def FRAME_SIZE_def)
  have "80 * q \<le> length S"
    by (simp add: n)
  then have full: "concat (map (spec_frame S) [0..<q]) = take (80 * q) S"
    by (rule concat_full_frames)
  have "length (drop (80 * q) S) = r"
    by (simp add: n)
  then have last: "spec_frame S q = drop (80 * q) S @ replicate (80 - r) 0"
    using r by (simp add: spec_frame_def spec_chunk_def FRAME_SIZE_def)
  show ?thesis
    by (simp add: c p full last)
qed

subsection \<open>A trailing odd byte\<close>

lemma samples_of_trailing: "even (length pcm) \<Longrightarrow> samples_of (pcm @ [b]) = samples_of pcm"
  by (simp add: samples_of_append)

lemma count_reads_trailing:
  assumes "even r"
  shows "count_reads (Suc r) = count_reads r"
proof -
  define q m where "q = r div 160" and "m = r mod 160"
  have r: "r = 160 * q + m" and m: "m < 160"
    by (simp_all add: q_def m_def)
  have "even m"
    unfolding m_def using assms by (simp add: dvd_mod)
  with m have m1: "Suc m < 160" and half: "Suc m div 2 = m div 2" and two: "Suc 0 \<le> m \<longleftrightarrow> 2 \<le> m"
    by (auto elim!: evenE)
  have "Suc r = 160 * q + Suc m"
    by (simp add: r)
  with m1 have "Suc r div 160 = q" "Suc r mod 160 = Suc m"
    by simp_all
  then show ?thesis
    by (simp add: count_reads_def SAMPLE_BYTES_def FRAME_SIZE_def half two
        q_def [symmetric] m_def [symmetric])
qed

lemma counted_trailing: "even (length pcm) \<Longrightarrow> counted (pcm @ [b]) = counted pcm"
  by (simp add: counted_def SAMPLE_BYTES_def)

lemma fed_frames_trailing: "even (length pcm) \<Longrightarrow> fed_frames (pcm @ [b]) = fed_frames pcm"
  by (simp add: fed_frames_def counted_trailing samples_of_trailing)

lemma container_trailing:
  "even (length pcm) \<Longrightarrow> container cd c0 (pcm @ [b]) = container cd c0 pcm"
  by (simp add: container_def total_size_def encoded_def fed_frames_trailing counted_trailing)

lemma run_trace_trailing:
  "even (length pcm) \<Longrightarrow> run_trace cd c0 (pcm @ [b]) = run_trace cd c0 pcm"
  by (simp add: run_trace_def total_size_def encoded_def fed_frames_trailing counted_trailing
      samples_of_trailing count_reads_trailing)

subsection \<open>The last frame\<close>

lemma last_frame_padded:
  assumes "0 < length S"
  shows "spec_frame S (spec_frame_count (length S) - 1)
           = drop (80 * (spec_frame_count (length S) - 1)) S @ replicate (spec_pad (length S)) 0"
proof -
  define q r where "q = length S div 80" and "r = length S mod 80"
  have n: "length S = 80 * q + r" and r: "r < 80"
    by (simp_all add: q_def r_def)
  show ?thesis
  proof (cases "r = 0")
    case True
    with assms n have q: "0 < q"
      by simp
    have c: "spec_frame_count (length S) = q" and p: "spec_pad (length S) = 0"
      using True by (simp_all add: n spec_frame_count_def spec_pad_def FRAME_SIZE_def)
    have "length S - 80 * (q - 1) = 80"
      using q True by (simp add: n algebra_simps)
    then have "length (drop (80 * (q - 1)) S) = 80"
      by simp
    then show ?thesis
      by (simp add: c p spec_frame_def spec_chunk_def FRAME_SIZE_def)
  next
    case False
    then have c: "spec_frame_count (length S) = Suc q" and p: "spec_pad (length S) = 80 - r"
      using r by (simp_all add: n spec_frame_count_def spec_pad_def FRAME_SIZE_def)
    have "length (drop (80 * q) S) = r"
      by (simp add: n)
    then show ?thesis
      using r by (simp add: c p spec_frame_def spec_chunk_def FRAME_SIZE_def)
  qed
qed

lemma fed_frames_small:
  "spec_frame_count (length pcm div 2) < 2 ^ 32 \<Longrightarrow>
   fed_frames pcm = map (spec_frame (samples_of pcm)) [0..<spec_frame_count (length (samples_of pcm))]"
  by (simp add: fed_frames_def unat_counted length_samples_of)

lemma fed_frames_length_80: "f \<in> set (fed_frames pcm) \<Longrightarrow> length f = 80"
  by (auto simp: fed_frames_def length_spec_frame)

subsection \<open>What the trace says about the encoder\<close>

lemma returned_run_trace: "returned cd c0 (run_trace cd c0 pcm) = encoded cd c0 pcm"
  by (simp add: returned_def encoded_frames_run_trace encoded_def)

lemma init_not_in_encode_events: "InitEncoder \<notin> set (encode_events S js)"
  by (induction js) (auto simp: encode_events_def)

section \<open>The claims\<close>

text \<open>
  The theorems about complete runs share their hypotheses: the command line has two
  arguments, the input path \<open>inp\<close> names a file with contents \<open>pcm\<close>, the output path
  \<open>outp\<close> is another path and can be opened for writing, and the encoder channel was
  created with context \<open>c0\<close>. Below, \<open>n = length pcm div 2\<close> is the number of complete
  samples of the input, \<open>spec_frame_count n\<close> is \<open>\<lceil>n / 80\<rceil>\<close>, and
  \<open>returned cd c0 (trace \<dots>)\<close> are the encoded frames the encoder returned in the run.
\<close>

subsection \<open>C1: the header and the length of the output\<close>




subsection \<open>C2: failure to create the encoder\<close>

text \<open>
  C2. When \<^verbatim>\<open>initBcg729EncoderChannel\<close> fails, the program stops with exit status 1
  after closing both streams, having read, encoded and written nothing. The
  destination file was created (or truncated) by \<^verbatim>\<open>fopen\<close> before the encoder was
  initialised and is not removed: an empty file is left at the destination path.
\<close>

theorem init_failure_leaves_empty_output:
  assumes "argv = [a0, inp, outp]" and "files w inp = Some pcm" and "writable w outp"
    and "initBcg729EncoderChannel cd 0 = None"
  shows "main cd w argv
           = \<lparr>exit_code = 1, final = w\<lparr>files := (files w)(outp \<mapsto> [])\<rparr>,
              reports = [EncoderInitFailed],
              trace = [OpenInput, OpenOutput, InitEncoder, CloseInput, CloseOutput]\<rparr>"
  using assms by (simp add: main_def fopen_rb_def fopen_wb_def)

theorem init_failure_leaves_empty_output_witness:
  "run_argv = [''pcm2g729'', ''in.pcm'', ''out.g729'']
   \<and> files (world_of [1, 0]) ''in.pcm'' = Some [1, 0]
   \<and> writable (world_of [1, 0]) ''out.g729''
   \<and> initBcg729EncoderChannel refusing_codec 0 = None
   \<and> main refusing_codec (world_of [1, 0]) run_argv
       = \<lparr>exit_code = 1,
          final = (world_of [1, 0])\<lparr>files := (files (world_of [1, 0]))(''out.g729'' \<mapsto> [])\<rparr>,
          reports = [EncoderInitFailed],
          trace = [OpenInput, OpenOutput, InitEncoder, CloseInput, CloseOutput]\<rparr>"
  using init_failure_leaves_empty_output
    [of run_argv "''pcm2g729''" "''in.pcm''" "''out.g729''" "world_of [1, 0]" "[1, 0]"
      refusing_codec]
  by (simp add: run_argv_def world_of_def refusing_codec_def)

text \<open>
  That no output file is created fails: encoder creation fails, the destination did
  not exist before the run, and it exists, empty, after it.
\<close>

theorem init_failure_creates_output_file:
  "initBcg729EncoderChannel refusing_codec 0 = None
   \<and> files (world_of [1, 0]) ''out.g729'' = None
   \<and> exit_code (main refusing_codec (world_of [1, 0]) run_argv) = 1
   \<and> files (final (main refusing_codec (world_of [1, 0]) run_argv)) ''out.g729'' = Some []"
  by (simp add: main_def fopen_rb_def fopen_wb_def run_argv_def world_of_def refusing_codec_def)

subsection \<open>C3: the counting pass and the creation of the encoder\<close>

text \<open>
  C3. The encoder context is created before the counting pass, right after the two
  files are opened, not after it. The counting pass that follows consists of \<^verbatim>\<open>fread\<close>
  calls only; they return every complete sample of the input once, and no encoder call
  is made among them. Every \<^verbatim>\<open>bcg729Encoder\<close> call comes after the \<^verbatim>\<open>rewind\<close>, and the context
  is not created again there.
\<close>

theorem encoder_created_before_counting_pass:
  assumes "argv = [a0, inp, outp]" and "inp \<noteq> outp" and "files w inp = Some pcm"
    and "writable w outp" and "initBcg729EncoderChannel cd 0 = Some c0"
  shows "\<exists>post. trace (main cd w argv)
                  = [OpenInput, OpenOutput, InitEncoder]
                    @ map Fread (count_reads (length pcm)) @ [Rewind] @ post
           \<and> sum_list (count_reads (length pcm)) = length pcm div 2
           \<and> InitEncoder \<notin> set post
           \<and> encoded_frames post = encoded_frames (trace (main cd w argv))"
proof -
  define post where "post = encode_events (samples_of pcm) [0..<unat (counted pcm)]
      @ [WriteHeader (total_size cd c0 pcm) (counted pcm * of_nat FRAME_SIZE)]
      @ map (\<lambda>fr. WriteFrame (length (frame_bytes fr))) (encoded cd c0 pcm)
      @ [CloseEncoder, CloseInput, CloseOutput]"
  have tr: "trace (main cd w argv)
              = [OpenInput, OpenOutput, InitEncoder]
                @ map Fread (count_reads (length pcm)) @ [Rewind] @ post"
    by (simp add: main_success [OF assms] run_trace_def post_def)
  have "InitEncoder \<notin> set post"
    by (auto simp: post_def init_not_in_encode_events)
  moreover have "encoded_frames post = encoded_frames (trace (main cd w argv))"
    unfolding tr by (simp add: encoded_frames_append encoded_frames_reads)
  ultimately show ?thesis
    using tr sum_count_reads [of "length pcm"] by blast
qed

theorem encoder_created_before_counting_pass_witness:
  "run_argv = [''pcm2g729'', ''in.pcm'', ''out.g729''] \<and> ''in.pcm'' \<noteq> ''out.g729''
   \<and> files (world_of [1, 0]) ''in.pcm'' = Some [1, 0]
   \<and> writable (world_of [1, 0]) ''out.g729''
   \<and> initBcg729EncoderChannel fixed_codec 0 = Some ()
   \<and> (\<exists>post. trace (main fixed_codec (world_of [1, 0]) run_argv)
                = [OpenInput, OpenOutput, InitEncoder]
                  @ map Fread (count_reads (length [1 :: u8, 0])) @ [Rewind] @ post
         \<and> sum_list (count_reads (length [1 :: u8, 0])) = length [1 :: u8, 0] div 2
         \<and> InitEncoder \<notin> set post
         \<and> encoded_frames post
             = encoded_frames (trace (main fixed_codec (world_of [1, 0]) run_argv)))"
proof -
  have h: "run_argv = [''pcm2g729'', ''in.pcm'', ''out.g729'']" "''in.pcm'' \<noteq> ''out.g729''"
    "files (world_of [1, 0]) ''in.pcm'' = Some [1, 0]" "writable (world_of [1, 0]) ''out.g729''"
    "initBcg729EncoderChannel fixed_codec 0 = Some ()"
    by (simp_all add: run_argv_def world_of_def fixed_codec_def)
  from encoder_created_before_counting_pass [OF h] h show ?thesis
    by blast
qed

text \<open>
  That the context is created only after the counting pass fails on a one-sample
  input: it is created (third event) before the first read of the counting pass
  (fourth event).
\<close>

theorem encoder_created_before_first_read:
  "trace (main fixed_codec (world_of [1, 0]) run_argv)
     = [OpenInput, OpenOutput, InitEncoder, Fread 1, Fread 0, Rewind,
        Fread 1, Encode (1 # replicate 79 0),
        WriteHeader 10 80, WriteFrame 10, CloseEncoder, CloseInput, CloseOutput]"
proof -
  have m: "main fixed_codec (world_of [1, 0]) run_argv
          = \<lparr>exit_code = 0,
             final = (world_of [1, 0])\<lparr>files := (files (world_of [1, 0]))(''out.g729''
               \<mapsto> container fixed_codec () [1, 0])\<rparr>,
             reports = [Encoded (counted [1, 0]) (total_size fixed_codec () [1, 0])],
             trace = run_trace fixed_codec () [1, 0]\<rparr>"
    by (rule main_success [of _ "''pcm2g729''"])
      (simp_all add: run_argv_def world_of_def fixed_codec_def)
  have c: "counted [1, 0] = 1"
    by (simp add: counted_def SAMPLE_BYTES_def spec_frame_count_def FRAME_SIZE_def)
  have f: "spec_frame [1 :: i16] 0 = 1 # replicate 79 0"
    and l: "length (spec_chunk [1 :: i16] 0) = Suc 0"
    by (simp_all add: spec_frame_def spec_chunk_def FRAME_SIZE_def)
  have e: "encoded fixed_codec () [1, 0] = [\<lparr>frame_data = replicate 10 0, frame_size = 10\<rparr>]"
    by (simp add: encoded_def fed_frames_def c fixed_codec_def)
  have r: "count_reads (Suc (Suc 0)) = [Suc 0, 0]"
    by (simp add: count_reads_def SAMPLE_BYTES_def FRAME_SIZE_def)
  show ?thesis
    unfolding m
    by (simp add: run_trace_def c e r total_size_def declared_sizes_def encode_events_def f l
        frame_bytes_def FRAME_SIZE_def)
qed

subsection \<open>C4: the number of frames and the sample count\<close>

text \<open>
  C4. The frame counter and the sample count are 32-bit. For an input of \<open>n\<close> complete
  samples with \<open>\<lceil>n / 80\<rceil> < 2\<^sup>3\<^sup>2\<close> the number of frames encoded is \<open>\<lceil>n / 80\<rceil>\<close>, and when
  moreover \<open>\<lceil>n / 80\<rceil> * 80 < 2\<^sup>3\<^sup>2\<close> the sample count in the fact chunk (offset 44) is that
  number of frames times 80.
\<close>

theorem frame_count_and_sample_count:
  assumes "argv = [a0, inp, outp]" and "inp \<noteq> outp" and "files w inp = Some pcm"
    and "writable w outp" and "initBcg729EncoderChannel cd 0 = Some c0"
  shows "(spec_frame_count (length pcm div 2) < 2 ^ 32 \<longrightarrow>
            length (encoded_frames (trace (main cd w argv)))
              = spec_frame_count (length pcm div 2))
         \<and> (spec_frame_count (length pcm div 2) * 80 < 2 ^ 32 \<longrightarrow>
            unat (u32_at (contents (final (main cd w argv)) outp) 44)
              = length (encoded_frames (trace (main cd w argv))) * 80)"
proof -
  have fr: "length (encoded_frames (trace (main cd w argv)))
              = spec_frame_count (length pcm div 2) mod 2 ^ 32"
    by (simp add: main_success [OF assms] encoded_frames_run_trace length_fed_frames
        unat_counted)
  have sc: "unat (u32_at (contents (final (main cd w argv)) outp) 44)
              = (spec_frame_count (length pcm div 2) * 80) mod 2 ^ 32"
    by (simp add: main_success [OF assms] contents_def container_def header_fields
        unat_sample_count)
  have "spec_frame_count (length pcm div 2) * 80 < 2 ^ 32 \<Longrightarrow>
          spec_frame_count (length pcm div 2) < 2 ^ 32"
    by simp
  then show ?thesis
    unfolding fr sc by auto
qed

theorem frame_count_and_sample_count_witness:
  "run_argv = [''pcm2g729'', ''in.pcm'', ''out.g729''] \<and> ''in.pcm'' \<noteq> ''out.g729''
   \<and> files (world_of [1, 0]) ''in.pcm'' = Some [1, 0]
   \<and> writable (world_of [1, 0]) ''out.g729''
   \<and> initBcg729EncoderChannel fixed_codec 0 = Some ()
   \<and> spec_frame_count (length [1 :: u8, 0] div 2) * 80 < 2 ^ 32
   \<and> spec_frame_count (length [1 :: u8, 0] div 2) < 2 ^ 32
   \<and> length (encoded_frames (trace (main fixed_codec (world_of [1, 0]) run_argv)))
       = spec_frame_count (length [1 :: u8, 0] div 2)
   \<and> unat (u32_at (contents (final (main fixed_codec (world_of [1, 0]) run_argv)) ''out.g729'') 44)
       = length (encoded_frames (trace (main fixed_codec (world_of [1, 0]) run_argv))) * 80"
proof -
  have h: "run_argv = [''pcm2g729'', ''in.pcm'', ''out.g729'']" "''in.pcm'' \<noteq> ''out.g729''"
    "files (world_of [1, 0]) ''in.pcm'' = Some [1, 0]" "writable (world_of [1, 0]) ''out.g729''"
    "initBcg729EncoderChannel fixed_codec 0 = Some ()"
    by (simp_all add: run_argv_def world_of_def fixed_codec_def)
  have b: "spec_frame_count (length [1 :: u8, 0] div 2) * 80 < 2 ^ 32"
    "spec_frame_count (length [1 :: u8, 0] div 2) < 2 ^ 32"
    by (simp_all add: spec_frame_count_def FRAME_SIZE_def)
  from frame_count_and_sample_count [OF h] h b show ?thesis
    by blast
qed

text \<open>
  Without the bound the sample count fails on an input of 8589934720 bytes
  (4294967360 samples, 53687092 full frames): the sample count field holds 64.
\<close>

theorem sample_count_wraps_at_53687092_frames:
  "unat (u32_at (contents (final (main fixed_codec (world_of (replicate 8589934720 0)) run_argv))
           ''out.g729'') 44) = 64
   \<and> spec_frame_count (length (replicate 8589934720 (0 :: u8)) div 2) * 80 = 4294967360"
proof -
  define pcm :: "u8 list" where "pcm = replicate 8589934720 0"
  have m: "main fixed_codec (world_of pcm) run_argv
          = \<lparr>exit_code = 0,
             final = (world_of pcm)\<lparr>files := (files (world_of pcm))(''out.g729''
               \<mapsto> container fixed_codec () pcm)\<rparr>,
             reports = [Encoded (counted pcm) (total_size fixed_codec () pcm)],
             trace = run_trace fixed_codec () pcm\<rparr>"
    by (rule main_success [of _ "''pcm2g729''"])
      (simp_all add: run_argv_def world_of_def fixed_codec_def)
  have n: "spec_frame_count (length pcm div 2) = 53687092"
    by (simp add: pcm_def spec_frame_count_def FRAME_SIZE_def)
  have "unat (u32_at (contents (final (main fixed_codec (world_of pcm) run_argv)) ''out.g729'') 44)
          = (spec_frame_count (length pcm div 2) * 80) mod 2 ^ 32"
    unfolding m by (simp add: contents_def container_def header_fields unat_sample_count)
  then show ?thesis
    unfolding n pcm_def [symmetric] by (simp add: n)
qed

subsection \<open>C5: the declared sizes and the payload\<close>

text \<open>
  C5. With an encoder that keeps its contract, the payload written after the 56-byte
  header has exactly as many bytes as the sum of the lengths the encoder returned. The
  data size field (offset 52) equals that number when it is below \<open>2\<^sup>3\<^sup>2\<close>, and the RIFF
  chunk size field (offset 4) equals \<open>4 + 24 + 12 + 8\<close> plus that number when the sum is
  below \<open>2\<^sup>3\<^sup>2\<close>.
\<close>

theorem declared_sizes_match_payload:
  assumes "argv = [a0, inp, outp]" and "inp \<noteq> outp" and "files w inp = Some pcm"
    and "writable w outp" and "initBcg729EncoderChannel cd 0 = Some c0" and "codec_ok cd"
  shows "length (drop 56 (contents (final (main cd w argv)) outp))
           = declared_sizes (returned cd c0 (trace (main cd w argv)))
         \<and> (declared_sizes (returned cd c0 (trace (main cd w argv))) < 2 ^ 32 \<longrightarrow>
              unat (u32_at (contents (final (main cd w argv)) outp) 52)
                = length (drop 56 (contents (final (main cd w argv)) outp)))
         \<and> (4 + 24 + 12 + 8 + declared_sizes (returned cd c0 (trace (main cd w argv))) < 2 ^ 32 \<longrightarrow>
              unat (u32_at (contents (final (main cd w argv)) outp) 4)
                = 4 + 24 + 12 + 8 + length (drop 56 (contents (final (main cd w argv)) outp)))"
proof -
  have out: "contents (final (main cd w argv)) outp = container cd c0 pcm"
    by (simp add: main_success [OF assms(1-5)] contents_def)
  have ret: "returned cd c0 (trace (main cd w argv)) = encoded cd c0 pcm"
    by (simp add: main_success [OF assms(1-5)] returned_run_trace)
  have len: "length (drop 56 (container cd c0 pcm)) = declared_sizes (encoded cd c0 pcm)"
    using assms(6) by (simp add: drop_container encoded_def payload_length)
  have d: "unat (u32_at (container cd c0 pcm) 52) = declared_sizes (encoded cd c0 pcm) mod 2 ^ 32"
    by (simp add: container_def header_fields unat_total_size)
  have c: "unat (u32_at (container cd c0 pcm) 4)
             = (48 + declared_sizes (encoded cd c0 pcm)) mod 2 ^ 32"
    by (simp add: container_def header_fields unat_chunk_size)
  show ?thesis
    unfolding out ret len d c by simp
qed

theorem declared_sizes_match_payload_witness:
  "run_argv = [''pcm2g729'', ''in.pcm'', ''out.g729''] \<and> ''in.pcm'' \<noteq> ''out.g729''
   \<and> files (world_of [1, 0]) ''in.pcm'' = Some [1, 0]
   \<and> writable (world_of [1, 0]) ''out.g729''
   \<and> initBcg729EncoderChannel fixed_codec 0 = Some ()
   \<and> codec_ok fixed_codec
   \<and> 4 + 24 + 12 + 8
       + declared_sizes (returned fixed_codec () (trace (main fixed_codec (world_of [1, 0]) run_argv)))
       < 2 ^ 32
   \<and> unat (u32_at (contents (final (main fixed_codec (world_of [1, 0]) run_argv)) ''out.g729'') 52)
       = length (drop 56 (contents (final (main fixed_codec (world_of [1, 0]) run_argv)) ''out.g729''))
   \<and> unat (u32_at (contents (final (main fixed_codec (world_of [1, 0]) run_argv)) ''out.g729'') 4)
       = 4 + 24 + 12 + 8
         + length (drop 56 (contents (final (main fixed_codec (world_of [1, 0]) run_argv)) ''out.g729''))"
proof -
  have h: "run_argv = [''pcm2g729'', ''in.pcm'', ''out.g729'']" "''in.pcm'' \<noteq> ''out.g729''"
    "files (world_of [1, 0]) ''in.pcm'' = Some [1, 0]" "writable (world_of [1, 0]) ''out.g729''"
    "initBcg729EncoderChannel fixed_codec 0 = Some ()"
    by (simp_all add: run_argv_def world_of_def fixed_codec_def)
  have "returned fixed_codec () (trace (main fixed_codec (world_of [1, 0]) run_argv))
          = encoded fixed_codec () [1, 0]"
    by (simp add: main_success [OF h] returned_run_trace)
  moreover have "declared_sizes (encoded fixed_codec () [1, 0]) = 10 * unat (counted [1, 0])"
    by (simp add: encoded_def declared_sizes_fixed length_fed_frames)
  moreover have "counted [1, 0] = 1"
    by (simp add: counted_def SAMPLE_BYTES_def spec_frame_count_def FRAME_SIZE_def)
  ultimately have b: "4 + 24 + 12 + 8
      + declared_sizes (returned fixed_codec () (trace (main fixed_codec (world_of [1, 0]) run_argv)))
      < 2 ^ 32"
    "declared_sizes (returned fixed_codec () (trace (main fixed_codec (world_of [1, 0]) run_argv)))
      < 2 ^ 32"
    by simp_all
  from declared_sizes_match_payload [OF h codec_ok_fixed] h codec_ok_fixed b show ?thesis
    by blast
qed

text \<open>
  Without the bound the data size fails on an input of 68719476800 bytes (429496730
  full frames) with an encoder that returns ten bytes per frame: 4294967300 payload
  bytes are written and the data size field holds 4.
\<close>

theorem data_size_wraps_at_429496730_frames:
  "unat (u32_at (contents (final (main fixed_codec (world_of (replicate 68719476800 0)) run_argv))
           ''out.g729'') 52) = 4
   \<and> length (drop 56 (contents (final (main fixed_codec (world_of (replicate 68719476800 0))
           run_argv)) ''out.g729'')) = 4294967300"
proof -
  define pcm :: "u8 list" where "pcm = replicate 68719476800 0"
  have m: "main fixed_codec (world_of pcm) run_argv
          = \<lparr>exit_code = 0,
             final = (world_of pcm)\<lparr>files := (files (world_of pcm))(''out.g729''
               \<mapsto> container fixed_codec () pcm)\<rparr>,
             reports = [Encoded (counted pcm) (total_size fixed_codec () pcm)],
             trace = run_trace fixed_codec () pcm\<rparr>"
    by (rule main_success [of _ "''pcm2g729''"])
      (simp_all add: run_argv_def world_of_def fixed_codec_def)
  have out: "contents (final (main fixed_codec (world_of pcm) run_argv)) ''out.g729''
               = container fixed_codec () pcm"
    unfolding m by (simp add: contents_def)
  have "spec_frame_count (length pcm div 2) = 429496730"
    by (simp add: pcm_def spec_frame_count_def FRAME_SIZE_def)
  then have k: "unat (counted pcm) = 429496730"
    by (simp add: unat_counted)
  have s: "declared_sizes (encoded fixed_codec () pcm) = 4294967300"
    by (simp add: encoded_def declared_sizes_fixed length_fed_frames k)
  have len: "length (drop 56 (container fixed_codec () pcm)) = 4294967300"
    using codec_ok_fixed
    by (simp add: drop_container encoded_def payload_length s [unfolded encoded_def])
  have "unat (u32_at (container fixed_codec () pcm) 52)
          = declared_sizes (encoded fixed_codec () pcm) mod 2 ^ 32"
    by (simp add: container_def header_fields unat_total_size)
  then have d: "unat (u32_at (container fixed_codec () pcm) 52) = 4"
    by (simp add: s)
  show ?thesis
    using d len unfolding out [unfolded pcm_def] pcm_def by simp
qed

subsection \<open>C6: frames of 80 samples, the last one padded\<close>

text \<open>
  C6. Every frame handed to the encoder has exactly 80 samples. For an input of \<open>n\<close>
  complete samples with \<open>\<lceil>n / 80\<rceil> < 2\<^sup>3\<^sup>2\<close>, the frames put end to end are the input
  samples followed by \<open>(80 - n mod 80) mod 80\<close> zero samples, all of them in the final
  frame; when \<open>n\<close> is a multiple of 80 nothing is added, and a one-sample input gives
  one frame, the sample followed by 79 zero samples.
\<close>

theorem frames_have_80_samples_last_one_padded:
  assumes "argv = [a0, inp, outp]" and "inp \<noteq> outp" and "files w inp = Some pcm"
    and "writable w outp" and "initBcg729EncoderChannel cd 0 = Some c0"
  shows "(\<forall>f \<in> set (encoded_frames (trace (main cd w argv))). length f = 80)
         \<and> (spec_frame_count (length pcm div 2) < 2 ^ 32 \<longrightarrow>
              concat (encoded_frames (trace (main cd w argv)))
                = samples_of pcm @ replicate (spec_pad (length pcm div 2)) 0
            \<and> (0 < length pcm div 2 \<longrightarrow>
                 last (encoded_frames (trace (main cd w argv)))
                   = drop (80 * (spec_frame_count (length pcm div 2) - 1)) (samples_of pcm)
                     @ replicate (spec_pad (length pcm div 2)) 0)
            \<and> (length pcm div 2 mod 80 = 0 \<longrightarrow>
                 concat (encoded_frames (trace (main cd w argv))) = samples_of pcm)
            \<and> (length pcm div 2 = 1 \<longrightarrow>
                 encoded_frames (trace (main cd w argv)) = [samples_of pcm @ replicate 79 0]))"
proof -
  define S where "S = samples_of pcm"
  have n: "length S = length pcm div 2"
    by (simp add: S_def length_samples_of)
  have tr: "encoded_frames (trace (main cd w argv)) = fed_frames pcm"
    by (simp add: main_success [OF assms] encoded_frames_run_trace)
  have all: "\<forall>f \<in> set (fed_frames pcm). length f = 80"
    by (simp add: fed_frames_length_80)
  have rest: "concat (fed_frames pcm) = S @ replicate (spec_pad (length S)) 0
      \<and> (0 < length S \<longrightarrow>
           last (fed_frames pcm)
             = drop (80 * (spec_frame_count (length S) - 1)) S @ replicate (spec_pad (length S)) 0)
      \<and> (length S mod 80 = 0 \<longrightarrow> concat (fed_frames pcm) = S)
      \<and> (length S = 1 \<longrightarrow> fed_frames pcm = [S @ replicate 79 0])"
    if small: "spec_frame_count (length pcm div 2) < 2 ^ 32"
  proof -
    have ff: "fed_frames pcm = map (spec_frame S) [0..<spec_frame_count (length S)]"
      using small by (simp add: fed_frames_small S_def)
    have cc: "concat (fed_frames pcm) = S @ replicate (spec_pad (length S)) 0"
      by (simp add: ff concat_spec_frames)
    have la: "last (fed_frames pcm)
             = drop (80 * (spec_frame_count (length S) - 1)) S @ replicate (spec_pad (length S)) 0"
      if pos: "0 < length S"
    proof -
      have "80 \<le> length S + 79"
        using pos by (cases S) simp_all
      then have "0 < (length S + 79) div 80"
        by (simp add: div_greater_zero_iff)
      then have "0 < spec_frame_count (length S)"
        by (simp add: spec_frame_count_def FRAME_SIZE_def)
      then have "last (fed_frames pcm) = spec_frame S (spec_frame_count (length S) - 1)"
        by (simp add: ff last_map)
      then show ?thesis
        by (simp only: last_frame_padded [OF pos])
    qed
    have mu: "concat (fed_frames pcm) = S" if "length S mod 80 = 0"
      using that by (simp add: cc spec_pad_def FRAME_SIZE_def)
    have one: "fed_frames pcm = [S @ replicate 79 0]" if "length S = 1"
    proof -
      have "spec_frame_count (length S) = 1"
        using that by (simp add: spec_frame_count_def FRAME_SIZE_def)
      then show ?thesis
        using that by (simp add: ff spec_frame_def spec_chunk_def FRAME_SIZE_def)
    qed
    from cc la mu one show ?thesis
      by blast
  qed
  from all rest show ?thesis
    unfolding tr S_def [symmetric] n [symmetric] by blast
qed

theorem frames_have_80_samples_last_one_padded_witness:
  "run_argv = [''pcm2g729'', ''in.pcm'', ''out.g729''] \<and> ''in.pcm'' \<noteq> ''out.g729''
   \<and> files (world_of [1, 0]) ''in.pcm'' = Some [1, 0]
   \<and> writable (world_of [1, 0]) ''out.g729''
   \<and> initBcg729EncoderChannel fixed_codec 0 = Some ()
   \<and> spec_frame_count (length [1 :: u8, 0] div 2) < 2 ^ 32
   \<and> length [1 :: u8, 0] div 2 = 1
   \<and> encoded_frames (trace (main fixed_codec (world_of [1, 0]) run_argv))
       = [samples_of [1, 0] @ replicate 79 0]"
proof -
  have h: "run_argv = [''pcm2g729'', ''in.pcm'', ''out.g729'']" "''in.pcm'' \<noteq> ''out.g729''"
    "files (world_of [1, 0]) ''in.pcm'' = Some [1, 0]" "writable (world_of [1, 0]) ''out.g729''"
    "initBcg729EncoderChannel fixed_codec 0 = Some ()"
    by (simp_all add: run_argv_def world_of_def fixed_codec_def)
  have b: "spec_frame_count (length [1 :: u8, 0] div 2) < 2 ^ 32" "length [1 :: u8, 0] div 2 = 1"
    by (simp_all add: spec_frame_count_def FRAME_SIZE_def)
  from frames_have_80_samples_last_one_padded [OF h] h b show ?thesis
    by blast
qed

text \<open>
  Without the bound the padding fails on an input of 687194767362 bytes, each of them
  1: that is \<open>2\<^sup>3\<^sup>2 * 80 + 1\<close> samples, so the final frame should carry 79 zero samples.
  The frame counter wraps to 1, and the one frame handed to the encoder is the first 80
  samples of the input, none of them zero.
\<close>

theorem short_last_frame_lost_at_4294967297_frames:
  "encoded_frames (trace (main fixed_codec (world_of (replicate 687194767362 1)) run_argv))
     = [replicate 80 257]
   \<and> spec_pad (length (replicate 687194767362 (1 :: u8)) div 2) = 79
   \<and> spec_frame_count (length (replicate 687194767362 (1 :: u8)) div 2) = 4294967297"
proof -
  define pcm :: "u8 list" where "pcm = replicate 687194767362 1"
  have m: "main fixed_codec (world_of pcm) run_argv
          = \<lparr>exit_code = 0,
             final = (world_of pcm)\<lparr>files := (files (world_of pcm))(''out.g729''
               \<mapsto> container fixed_codec () pcm)\<rparr>,
             reports = [Encoded (counted pcm) (total_size fixed_codec () pcm)],
             trace = run_trace fixed_codec () pcm\<rparr>"
    by (rule main_success [of _ "''pcm2g729''"])
      (simp_all add: run_argv_def world_of_def fixed_codec_def)
  have c: "spec_frame_count (length pcm div 2) = 4294967297"
    and p: "spec_pad (length pcm div 2) = 79"
    by (simp_all add: pcm_def spec_frame_count_def spec_pad_def FRAME_SIZE_def)
  then have k: "unat (counted pcm) = 1"
    by (simp add: unat_counted)
  have "pcm = replicate (2 * 343597383681) 1"
    by (simp add: pcm_def)
  then have "samples_of pcm = replicate 343597383681 (ucast (1 :: u8) + push_bit 8 (ucast (1 :: u8)))"
    by (simp only: samples_of_replicate)
  then have S: "samples_of pcm = replicate 343597383681 257"
    by simp
  have f: "fed_frames pcm = [replicate 80 257]"
    by (simp add: fed_frames_def k S spec_frame_def spec_chunk_def FRAME_SIZE_def)
  have "encoded_frames (trace (main fixed_codec (world_of pcm) run_argv)) = [replicate 80 257]"
    unfolding m by (simp add: encoded_frames_run_trace f)
  with c p show ?thesis
    unfolding pcm_def by simp
qed

subsection \<open>C7: the life of the encoder context\<close>

text \<open>
  C7. The frame counter is 32-bit. For an input of \<open>n\<close> complete samples with
  \<open>\<lceil>n / 80\<rceil> < 2\<^sup>3\<^sup>2\<close> and an encoder that keeps its contract, the codec calls of the run
  are, in this order: one \<^verbatim>\<open>initBcg729EncoderChannel\<close>; one \<^verbatim>\<open>bcg729Encoder\<close> call for each
  of the \<open>\<lceil>n / 80\<rceil>\<close> frames of the input, frame \<open>j\<close> before frame \<open>j + 1\<close>; one
  \<^verbatim>\<open>closeBcg729EncoderChannel\<close>, after the last frame. The calls are made on one context:
  the first on the context that the creation returned, each later one on the context
  that the call before it left, so that the bytes written after the header and the
  data size reported are those of the encoder run over the frames in stream order.
\<close>

theorem codec_calls_in_stream_order:
  assumes "argv = [a0, inp, outp]" and "inp \<noteq> outp" and "files w inp = Some pcm"
    and "writable w outp" and "initBcg729EncoderChannel cd 0 = Some c0" and "codec_ok cd"
    and "spec_frame_count (length pcm div 2) < 2 ^ 32"
  shows "filter is_codec_call (trace (main cd w argv))
           = InitEncoder
             # map (\<lambda>j. Encode (spec_frame (samples_of pcm) j))
                 [0..<spec_frame_count (length pcm div 2)]
             @ [CloseEncoder]
         \<and> drop 56 (contents (final (main cd w argv)) outp)
             = payload_of (run_codec cd c0
                 (map (spec_frame (samples_of pcm)) [0..<spec_frame_count (length pcm div 2)]))
         \<and> reports (main cd w argv)
             = [Encoded (of_nat (spec_frame_count (length pcm div 2)))
                  (of_nat (declared_sizes (run_codec cd c0
                     (map (spec_frame (samples_of pcm))
                        [0..<spec_frame_count (length pcm div 2)]))))]"
proof -
  have k: "unat (counted pcm) = spec_frame_count (length pcm div 2)"
    using assms(7) by (simp add: unat_counted)
  have calls: "filter is_codec_call (trace (main cd w argv))
      = InitEncoder
        # map (\<lambda>j. Encode (spec_frame (samples_of pcm) j))
            [0..<spec_frame_count (length pcm div 2)]
        @ [CloseEncoder]"
    by (simp add: main_success [OF assms(1-5)] codec_calls_run_trace k)
  have enc: "encoded cd c0 pcm
      = run_codec cd c0
          (map (spec_frame (samples_of pcm)) [0..<spec_frame_count (length pcm div 2)])"
    by (simp add: encoded_def fed_frames_def k)
  have pay: "drop 56 (contents (final (main cd w argv)) outp) = payload_of (encoded cd c0 pcm)"
    by (simp add: main_success [OF assms(1-5)] contents_def drop_container)
  have rep: "reports (main cd w argv)
      = [Encoded (of_nat (spec_frame_count (length pcm div 2)))
                 (of_nat (declared_sizes (encoded cd c0 pcm)))]"
    by (simp add: main_success [OF assms(1-5)] counted_def total_size_def SAMPLE_BYTES_def)
  from calls pay rep show ?thesis
    unfolding enc by blast
qed

theorem codec_calls_in_stream_order_witness:
  "run_argv = [''pcm2g729'', ''in.pcm'', ''out.g729''] \<and> ''in.pcm'' \<noteq> ''out.g729''
   \<and> files (world_of (replicate 160 1 @ [2, 0])) ''in.pcm'' = Some (replicate 160 1 @ [2, 0])
   \<and> writable (world_of (replicate 160 1 @ [2, 0])) ''out.g729''
   \<and> initBcg729EncoderChannel counting_codec 0 = Some 0
   \<and> codec_ok counting_codec
   \<and> spec_frame_count (length (replicate 160 (1 :: u8) @ [2, 0]) div 2) < 2 ^ 32
   \<and> filter is_codec_call
         (trace (main counting_codec (world_of (replicate 160 1 @ [2, 0])) run_argv))
       = [InitEncoder, Encode (257 # replicate 79 257), Encode (2 # replicate 79 0),
          CloseEncoder]
   \<and> drop 56 (contents (final (main counting_codec (world_of (replicate 160 1 @ [2, 0]))
         run_argv)) ''out.g729'')
       = [0, 1, 0, 0, 0, 0, 0, 0, 0, 0, 1, 2, 0, 0, 0, 0, 0, 0, 0, 0]"
proof -
  define pcm :: "u8 list" where "pcm = replicate 160 1 @ [2, 0]"
  have h: "run_argv = [''pcm2g729'', ''in.pcm'', ''out.g729'']" "''in.pcm'' \<noteq> ''out.g729''"
    "files (world_of pcm) ''in.pcm'' = Some pcm" "writable (world_of pcm) ''out.g729''"
    "initBcg729EncoderChannel counting_codec 0 = Some 0"
    by (simp_all add: run_argv_def world_of_def counting_codec_def)
  have ok: "codec_ok counting_codec"
    by (simp add: codec_ok_def counting_codec_def ENCODED_FRAME_SIZE_def)
  have n: "spec_frame_count (length pcm div 2) = 2"
    by (simp add: pcm_def spec_frame_count_def FRAME_SIZE_def)
  then have b: "spec_frame_count (length pcm div 2) < 2 ^ 32"
    by simp
  have "replicate 160 (1 :: u8) = replicate (2 * 80) 1"
    by simp
  then have "samples_of (replicate 160 1) = replicate 80 (ucast (1 :: u8) + push_bit 8 (ucast (1 :: u8)))"
    by (simp only: samples_of_replicate)
  then have S: "samples_of pcm = replicate 80 257 @ [2]"
    by (simp add: pcm_def samples_of_append)
  have r: "replicate 80 (257 :: i16) = 257 # replicate 79 257"
    by (simp add: numeral_eq_Suc)
  have f0: "spec_frame (replicate 80 257 @ [2]) 0 = 257 # replicate 79 257"
    by (simp add: spec_frame_def spec_chunk_def FRAME_SIZE_def r [symmetric])
  have f1: "spec_frame (replicate 80 257 @ [2]) (Suc 0) = 2 # replicate 79 0"
    by (simp add: spec_frame_def spec_chunk_def FRAME_SIZE_def)
  have u: "[0..<2] = [0, Suc 0]"
    by (simp add: upt_rec)
  have p: "payload_of (run_codec counting_codec 0 [257 # replicate 79 257, 2 # replicate 79 0])
             = [0, 1, 0, 0, 0, 0, 0, 0, 0, 0, 1, 2, 0, 0, 0, 0, 0, 0, 0, 0]"
    by (simp add: payload_of_def frame_bytes_def counting_codec_def)
  have me: "map (\<lambda>j. Encode (spec_frame (replicate 80 257 @ [2]) j)) [0, Suc 0]
              = [Encode (257 # replicate 79 257), Encode (2 # replicate 79 0)]"
    and mp: "map (spec_frame (replicate 80 257 @ [2])) [0, Suc 0]
              = [257 # replicate 79 257, 2 # replicate 79 0]"
    by (simp_all add: f0 f1)
  from codec_calls_in_stream_order [OF h ok b, unfolded n S u me mp p]
  have "filter is_codec_call (trace (main counting_codec (world_of pcm) run_argv))
          = [InitEncoder, Encode (257 # replicate 79 257), Encode (2 # replicate 79 0),
             CloseEncoder]
        \<and> drop 56 (contents (final (main counting_codec (world_of pcm) run_argv)) ''out.g729'')
          = [0, 1, 0, 0, 0, 0, 0, 0, 0, 0, 1, 2, 0, 0, 0, 0, 0, 0, 0, 0]"
    by simp
  with h ok b show ?thesis
    unfolding pcm_def by blast
qed

text \<open>
  Without the bound the claim fails on an input of 687194767360 bytes, that is
  \<open>2\<^sup>3\<^sup>2\<close> full frames: the frame counter wraps to 0, the run ends with exit status 0,
  and the context is created and destroyed without one frame being encoded.
\<close>

theorem no_frame_encoded_at_4294967296_frames:
  "filter is_codec_call (trace (main fixed_codec (world_of (replicate 687194767360 0)) run_argv))
     = [InitEncoder, CloseEncoder]
   \<and> exit_code (main fixed_codec (world_of (replicate 687194767360 0)) run_argv) = 0
   \<and> spec_frame_count (length (replicate 687194767360 (0 :: u8)) div 2) = 4294967296"
proof -
  define pcm :: "u8 list" where "pcm = replicate 687194767360 0"
  have m: "main fixed_codec (world_of pcm) run_argv
          = \<lparr>exit_code = 0,
             final = (world_of pcm)\<lparr>files := (files (world_of pcm))(''out.g729''
               \<mapsto> container fixed_codec () pcm)\<rparr>,
             reports = [Encoded (counted pcm) (total_size fixed_codec () pcm)],
             trace = run_trace fixed_codec () pcm\<rparr>"
    by (rule main_success [of _ "''pcm2g729''"])
      (simp_all add: run_argv_def world_of_def fixed_codec_def)
  have c: "spec_frame_count (length pcm div 2) = 4294967296"
    by (simp add: pcm_def spec_frame_count_def FRAME_SIZE_def)
  then have k: "unat (counted pcm) = 0"
    by (simp add: unat_counted)
  have "filter is_codec_call (trace (main fixed_codec (world_of pcm) run_argv))
          = [InitEncoder, CloseEncoder]"
    unfolding m by (simp add: codec_calls_run_trace k)
  moreover have "exit_code (main fixed_codec (world_of pcm) run_argv) = 0"
    unfolding m by simp
  ultimately show ?thesis
    using c unfolding pcm_def by simp
qed

subsection \<open>C8: the output is a function of the input and the encoder\<close>

text \<open>
  C8. With an encoder that is a function of its context and frame and keeps its
  contract, two runs on the same input bytes write byte-identical files and end with
  the same exit status, whatever the paths, the other files, the previous contents of
  the destination and the contents of uninitialised memory.
\<close>

theorem transcode_deterministic:
  assumes "argv = [a0, inp, outp]" and "inp \<noteq> outp" and "files w inp = Some pcm"
    and "writable w outp"
    and "argv' = [a0', inp', outp']" and "inp' \<noteq> outp'" and "files w' inp' = Some pcm"
    and "writable w' outp'"
    and "codec_ok cd"
  shows "files (final (main cd w argv)) outp = files (final (main cd w' argv')) outp'
         \<and> exit_code (main cd w argv) = exit_code (main cd w' argv')"
proof (cases "initBcg729EncoderChannel cd 0")
  case None
  show ?thesis
    using assms None by (simp add: main_def fopen_rb_def fopen_wb_def)
next
  case (Some c0)
  show ?thesis
    by (simp add: main_success [OF assms(1-4) Some] main_success [OF assms(5-8) Some])
qed

theorem transcode_deterministic_witness:
  "run_argv = [''pcm2g729'', ''in.pcm'', ''out.g729''] \<and> ''in.pcm'' \<noteq> ''out.g729''
   \<and> files (world_of [1, 0]) ''in.pcm'' = Some [1, 0]
   \<and> writable (world_of [1, 0]) ''out.g729''
   \<and> second_argv = [''./pcm2g729'', ''a.raw'', ''b.wav''] \<and> ''a.raw'' \<noteq> ''b.wav''
   \<and> files (second_world [1, 0]) ''a.raw'' = Some [1, 0]
   \<and> writable (second_world [1, 0]) ''b.wav''
   \<and> codec_ok fixed_codec
   \<and> files (final (main fixed_codec (world_of [1, 0]) run_argv)) ''out.g729''
       = files (final (main fixed_codec (second_world [1, 0]) second_argv)) ''b.wav''
   \<and> exit_code (main fixed_codec (world_of [1, 0]) run_argv)
       = exit_code (main fixed_codec (second_world [1, 0]) second_argv)"
proof -
  have h: "run_argv = [''pcm2g729'', ''in.pcm'', ''out.g729'']" "''in.pcm'' \<noteq> ''out.g729''"
    "files (world_of [1, 0]) ''in.pcm'' = Some [1, 0]" "writable (world_of [1, 0]) ''out.g729''"
    "second_argv = [''./pcm2g729'', ''a.raw'', ''b.wav'']" "''a.raw'' \<noteq> ''b.wav''"
    "files (second_world [1, 0]) ''a.raw'' = Some [1, 0]"
    "writable (second_world [1, 0]) ''b.wav''"
    by (simp_all add: run_argv_def second_argv_def world_of_def second_world_def)
  from transcode_deterministic [OF h codec_ok_fixed] h codec_ok_fixed show ?thesis
    by blast
qed

subsection \<open>C9: 32-bit header fields\<close>

text \<open>
  C9. The header fields are 32-bit and wrap: with \<open>n\<close> input samples, the sample count
  at offset 44 is \<open>(\<lceil>n / 80\<rceil> * 80) mod 2\<^sup>3\<^sup>2\<close>, the RIFF chunk size at offset 4 is
  \<open>(48 + total) mod 2\<^sup>3\<^sup>2\<close> and the data size at offset 52 is \<open>total mod 2\<^sup>3\<^sup>2\<close>, where
  \<open>total\<close> is the sum of the lengths the encoder returned. The run ends with exit status
  0 and the success report, whether or not a field wrapped.
\<close>

theorem header_counters_wrap:
  assumes "argv = [a0, inp, outp]" and "inp \<noteq> outp" and "files w inp = Some pcm"
    and "writable w outp" and "initBcg729EncoderChannel cd 0 = Some c0"
  shows "exit_code (main cd w argv) = 0
         \<and> reports (main cd w argv)
             = [Encoded (of_nat (spec_frame_count (length pcm div 2)))
                        (of_nat (declared_sizes (returned cd c0 (trace (main cd w argv)))))]
         \<and> unat (u32_at (contents (final (main cd w argv)) outp) 44)
             = (spec_frame_count (length pcm div 2) * 80) mod 2 ^ 32
         \<and> unat (u32_at (contents (final (main cd w argv)) outp) 4)
             = (48 + declared_sizes (returned cd c0 (trace (main cd w argv)))) mod 2 ^ 32
         \<and> unat (u32_at (contents (final (main cd w argv)) outp) 52)
             = declared_sizes (returned cd c0 (trace (main cd w argv))) mod 2 ^ 32"
proof -
  have ret: "returned cd c0 (trace (main cd w argv)) = encoded cd c0 pcm"
    by (simp add: main_success [OF assms] returned_run_trace)
  have out: "contents (final (main cd w argv)) outp = container cd c0 pcm"
    by (simp add: main_success [OF assms] contents_def)
  have "exit_code (main cd w argv) = 0"
    by (simp add: main_success [OF assms])
  moreover have "reports (main cd w argv)
      = [Encoded (of_nat (spec_frame_count (length pcm div 2)))
                 (of_nat (declared_sizes (encoded cd c0 pcm)))]"
    by (simp add: main_success [OF assms] counted_def total_size_def SAMPLE_BYTES_def)
  moreover have "unat (u32_at (container cd c0 pcm) 44)
      = (spec_frame_count (length pcm div 2) * 80) mod 2 ^ 32"
    by (simp add: container_def header_fields unat_sample_count)
  moreover have "unat (u32_at (container cd c0 pcm) 4)
      = (48 + declared_sizes (encoded cd c0 pcm)) mod 2 ^ 32"
    by (simp add: container_def header_fields unat_chunk_size)
  moreover have "unat (u32_at (container cd c0 pcm) 52)
      = declared_sizes (encoded cd c0 pcm) mod 2 ^ 32"
    by (simp add: container_def header_fields unat_total_size)
  ultimately show ?thesis
    unfolding ret out by blast
qed

theorem header_counters_wrap_witness:
  "run_argv = [''pcm2g729'', ''in.pcm'', ''out.g729''] \<and> ''in.pcm'' \<noteq> ''out.g729''
   \<and> files (world_of [1, 0]) ''in.pcm'' = Some [1, 0]
   \<and> writable (world_of [1, 0]) ''out.g729''
   \<and> initBcg729EncoderChannel fixed_codec 0 = Some ()
   \<and> exit_code (main fixed_codec (world_of [1, 0]) run_argv) = 0
   \<and> unat (u32_at (contents (final (main fixed_codec (world_of [1, 0]) run_argv)) ''out.g729'') 44)
       = (spec_frame_count (length [1 :: u8, 0] div 2) * 80) mod 2 ^ 32"
proof -
  have h: "run_argv = [''pcm2g729'', ''in.pcm'', ''out.g729'']" "''in.pcm'' \<noteq> ''out.g729''"
    "files (world_of [1, 0]) ''in.pcm'' = Some [1, 0]" "writable (world_of [1, 0]) ''out.g729''"
    "initBcg729EncoderChannel fixed_codec 0 = Some ()"
    by (simp_all add: run_argv_def world_of_def fixed_codec_def)
  from header_counters_wrap [OF h] h show ?thesis
    by blast
qed

subsection \<open>C10: a trailing odd byte\<close>

text \<open>
  C10. A trailing byte after the last complete sample changes nothing: the run on
  \<open>pcm @ [b]\<close>, with \<open>pcm\<close> of even length, has the same exit status, the same report
  (frame count and data size), the same trace (so the same reads and the same frames
  handed to the encoder) and the same output file (so the same sample count in the
  header) as the run on \<open>pcm\<close>. The frames handed to the encoder are made of the
  complete samples of \<open>pcm\<close> and of zero samples only; the byte \<open>b\<close> is in none of them.
\<close>

theorem trailing_byte_discarded:
  assumes "argv = [a0, inp, outp]" and "inp \<noteq> outp" and "files w inp = Some (pcm @ [b])"
    and "writable w outp"
    and "argv' = [a0', inp', outp']" and "inp' \<noteq> outp'" and "files w' inp' = Some pcm"
    and "writable w' outp'"
    and "initBcg729EncoderChannel cd 0 = Some c0" and "codec_ok cd" and "even (length pcm)"
  shows "exit_code (main cd w argv) = exit_code (main cd w' argv')
         \<and> reports (main cd w argv) = reports (main cd w' argv')
         \<and> trace (main cd w argv) = trace (main cd w' argv')
         \<and> files (final (main cd w argv)) outp = files (final (main cd w' argv')) outp'
         \<and> encoded_frames (trace (main cd w argv))
             = map (spec_frame (samples_of pcm)) [0..<spec_frame_count (length pcm div 2) mod 2 ^ 32]"
proof -
  note a = main_success [OF assms(1-4) assms(9)]
  note b = main_success [OF assms(5-8) assms(9)]
  have "encoded_frames (run_trace cd c0 pcm)
          = map (spec_frame (samples_of pcm)) [0..<spec_frame_count (length pcm div 2) mod 2 ^ 32]"
    by (simp add: encoded_frames_run_trace fed_frames_def unat_counted)
  then show ?thesis
    unfolding a b
    by (simp add: run_trace_trailing [OF assms(11)] container_trailing [OF assms(11)]
        counted_trailing [OF assms(11)] total_size_def encoded_def
        fed_frames_trailing [OF assms(11)])
qed

theorem trailing_byte_discarded_witness:
  "run_argv = [''pcm2g729'', ''in.pcm'', ''out.g729''] \<and> ''in.pcm'' \<noteq> ''out.g729''
   \<and> files (world_of ([1, 0] @ [7])) ''in.pcm'' = Some ([1, 0] @ [7])
   \<and> writable (world_of ([1, 0] @ [7])) ''out.g729''
   \<and> second_argv = [''./pcm2g729'', ''a.raw'', ''b.wav''] \<and> ''a.raw'' \<noteq> ''b.wav''
   \<and> files (second_world [1, 0]) ''a.raw'' = Some [1, 0]
   \<and> writable (second_world [1, 0]) ''b.wav''
   \<and> initBcg729EncoderChannel fixed_codec 0 = Some ()
   \<and> codec_ok fixed_codec
   \<and> even (length [1 :: u8, 0])
   \<and> trace (main fixed_codec (world_of ([1, 0] @ [7])) run_argv)
       = trace (main fixed_codec (second_world [1, 0]) second_argv)
   \<and> files (final (main fixed_codec (world_of ([1, 0] @ [7])) run_argv)) ''out.g729''
       = files (final (main fixed_codec (second_world [1, 0]) second_argv)) ''b.wav''"
proof -
  have h: "run_argv = [''pcm2g729'', ''in.pcm'', ''out.g729'']" "''in.pcm'' \<noteq> ''out.g729''"
    "files (world_of ([1, 0] @ [7])) ''in.pcm'' = Some ([1, 0] @ [7])"
    "writable (world_of ([1, 0] @ [7])) ''out.g729''"
    "second_argv = [''./pcm2g729'', ''a.raw'', ''b.wav'']" "''a.raw'' \<noteq> ''b.wav''"
    "files (second_world [1, 0]) ''a.raw'' = Some [1, 0]"
    "writable (second_world [1, 0]) ''b.wav''"
    "initBcg729EncoderChannel fixed_codec 0 = Some ()"
    by (simp_all add: run_argv_def second_argv_def world_of_def second_world_def fixed_codec_def)
  have e: "even (length [1 :: u8, 0])"
    by simp
  from trailing_byte_discarded [OF h codec_ok_fixed e] h codec_ok_fixed e show ?thesis
    by blast
qed

end
